theory Spec2Isabelle
  imports Main
begin

section \<open>Text of the converter: characters and strings\<close>

text \<open>
  The converter of \<^verbatim>\<open>pdf_to_epub.py\<close> works on Python \<^verbatim>\<open>str\<close> values. A Python string
  is modelled as a \<^typ>\<open>string\<close>, one \<^typ>\<open>char\<close> for the code point of the same number, so
  the model covers text whose code points lie in U+0000..U+00FF. The character tables
  below are those of Python 3 on that range.
\<close>

definition ascii_lowercase :: string where
  "ascii_lowercase = ''abcdefghijklmnopqrstuvwxyz''"

definition ascii_uppercase :: string where
  "ascii_uppercase = ''ABCDEFGHIJKLMNOPQRSTUVWXYZ''"

definition latin1_lowercase :: string where
  "latin1_lowercase =
     [CHR 0xE0, CHR 0xE1, CHR 0xE2, CHR 0xE3, CHR 0xE4, CHR 0xE5, CHR 0xE6, CHR 0xE7,
      CHR 0xE8, CHR 0xE9, CHR 0xEA, CHR 0xEB, CHR 0xEC, CHR 0xED, CHR 0xEE, CHR 0xEF,
      CHR 0xF0, CHR 0xF1, CHR 0xF2, CHR 0xF3, CHR 0xF4, CHR 0xF5, CHR 0xF6,
      CHR 0xF8, CHR 0xF9, CHR 0xFA, CHR 0xFB, CHR 0xFC, CHR 0xFD, CHR 0xFE]"

definition latin1_uppercase :: string where
  "latin1_uppercase =
     [CHR 0xC0, CHR 0xC1, CHR 0xC2, CHR 0xC3, CHR 0xC4, CHR 0xC5, CHR 0xC6, CHR 0xC7,
      CHR 0xC8, CHR 0xC9, CHR 0xCA, CHR 0xCB, CHR 0xCC, CHR 0xCD, CHR 0xCE, CHR 0xCF,
      CHR 0xD0, CHR 0xD1, CHR 0xD2, CHR 0xD3, CHR 0xD4, CHR 0xD5, CHR 0xD6,
      CHR 0xD8, CHR 0xD9, CHR 0xDA, CHR 0xDB, CHR 0xDC, CHR 0xDD, CHR 0xDE]"

definition ascii_digits :: string where
  "ascii_digits = ''0123456789''"

text \<open>\<^verbatim>\<open>str.isspace\<close>, which is also what \<^verbatim>\<open>str.strip()\<close>, \<^verbatim>\<open>str.split()\<close> and the
  regular expression class \<^verbatim>\<open>\s\<close> use.\<close>

definition is_space :: "char \<Rightarrow> bool" where
  "is_space c = (c \<in> set [CHR 0x09, CHR 0x0A, CHR 0x0B, CHR 0x0C, CHR 0x0D,
                            CHR 0x1C, CHR 0x1D, CHR 0x1E, CHR 0x1F, CHR 0x20,
                            CHR 0x85, CHR 0xA0])"

text \<open>The line boundaries of \<^verbatim>\<open>str.splitlines()\<close>.\<close>

definition is_linebreak :: "char \<Rightarrow> bool" where
  "is_linebreak c = (c \<in> set [CHR 0x0A, CHR 0x0B, CHR 0x0C, CHR 0x0D,
                                CHR 0x1C, CHR 0x1D, CHR 0x1E, CHR 0x85])"

text \<open>The class \<^verbatim>\<open>\d\<close>.\<close>

definition is_digit :: "char \<Rightarrow> bool" where
  "is_digit c = (c \<in> set ascii_digits)"

text \<open>The characters that \<^verbatim>\<open>str.isnumeric\<close> accepts: the digits, the superscripts
  one to three and the three vulgar fractions.\<close>

definition is_numeric_char :: "char \<Rightarrow> bool" where
  "is_numeric_char c =
     (is_digit c \<or> c \<in> set [CHR 0xB2, CHR 0xB3, CHR 0xB9, CHR 0xBC, CHR 0xBD, CHR 0xBE])"

text \<open>The class \<^verbatim>\<open>\w\<close>, which decides the word boundary \<^verbatim>\<open>\b\<close>.\<close>

definition is_word_char :: "char \<Rightarrow> bool" where
  "is_word_char c =
     (is_numeric_char c \<or> c = CHR ''_''
      \<or> c \<in> set ascii_lowercase \<or> c \<in> set ascii_uppercase
      \<or> c \<in> set latin1_lowercase \<or> c \<in> set latin1_uppercase
      \<or> c \<in> set [CHR 0xAA, CHR 0xB5, CHR 0xBA, CHR 0xDF, CHR 0xFF])"

text \<open>\<^verbatim>\<open>str.isupper\<close> on one character.\<close>

definition is_upper_char :: "char \<Rightarrow> bool" where
  "is_upper_char c = (c \<in> set ascii_uppercase \<or> c \<in> set latin1_uppercase)"

text \<open>\<^verbatim>\<open>str.upper\<close>. The sharp s becomes two letters. The upper-case forms of the micro
  sign and of y with diaeresis are U+039C and U+0178, outside the range; both are left
  in place here, which no comparison of the converter can tell apart: it compares upper-cased
  text with ASCII letters only.\<close>

definition upper_char :: "char \<Rightarrow> string" where
  "upper_char c =
     (case map_of (zip (ascii_lowercase @ latin1_lowercase) (ascii_uppercase @ latin1_uppercase)) c of
        Some u \<Rightarrow> [u]
      | None \<Rightarrow> if c = CHR 0xDF then ''SS'' else [c])"

definition py_upper :: "string \<Rightarrow> string" where
  "py_upper s = concat (map upper_char s)"

text \<open>\<^verbatim>\<open>str.strip()\<close> without argument.\<close>

definition py_strip :: "string \<Rightarrow> string" where
  "py_strip s = rev (dropWhile is_space (rev (dropWhile is_space s)))"

text \<open>\<^verbatim>\<open>sep.join(xs)\<close>.\<close>

fun py_join :: "string \<Rightarrow> string list \<Rightarrow> string" where
  "py_join sep [] = []"
| "py_join sep [x] = x"
| "py_join sep (x # y # ys) = x @ sep @ py_join sep (y # ys)"

text \<open>\<^verbatim>\<open>str.split()\<close> without argument: the maximal runs of characters that are not
  white space.\<close>

function py_split :: "string \<Rightarrow> string list" where
  "py_split s =
     (let t = dropWhile is_space s
      in if t = [] then []
         else takeWhile (\<lambda>c. \<not> is_space c) t # py_split (dropWhile (\<lambda>c. \<not> is_space c) t))"
  by pat_completeness auto
termination
proof (relation "measure length")
  fix s t :: string
  assume t: "t = dropWhile is_space s" and ne: "t \<noteq> []"
  have "length (dropWhile (\<lambda>c. \<not> is_space c) t) < length t"
  proof (cases t)
    case Nil
    with ne show ?thesis by simp
  next
    case (Cons c cs)
    then have "\<not> is_space c"
      using t hd_dropWhile [of is_space s] by (metis list.sel(1) list.simps(3))
    then have "length (dropWhile (\<lambda>c. \<not> is_space c) t) \<le> length cs"
      using Cons by (simp add: length_dropWhile_le)
    then show ?thesis using Cons by simp
  qed
  also have "length t \<le> length s"
    using t by (simp add: length_dropWhile_le)
  finally show "(dropWhile (\<lambda>c. \<not> is_space c) t, s) \<in> measure length" by simp
qed simp

declare py_split.simps [simp del]

text \<open>\<^verbatim>\<open>str.splitlines()\<close>: the text is cut at every line boundary, a carriage return
  directly followed by a line feed counts as one boundary, and a boundary at the very end
  opens no further line.\<close>

function py_splitlines :: "string \<Rightarrow> string list" where
  "py_splitlines s =
     (if s = [] then []
      else let line = takeWhile (\<lambda>c. \<not> is_linebreak c) s;
               rest = dropWhile (\<lambda>c. \<not> is_linebreak c) s
           in case rest of
                [] \<Rightarrow> [line]
              | c # cs \<Rightarrow>
                  (case cs of
                     d # ds \<Rightarrow> if c = CHR 0x0D \<and> d = CHR 0x0A then line # py_splitlines ds
                               else line # py_splitlines cs
                   | [] \<Rightarrow> line # py_splitlines cs))"
  by pat_completeness auto
termination
proof (relation "measure length")
  show "wf (measure length)" by simp
next
  fix s line rest :: string and c d :: char and cs ds :: string
  assume "rest = dropWhile (\<lambda>c. \<not> is_linebreak c) s" "rest = c # cs" "cs = d # ds"
  then have "length (c # d # ds) \<le> length s"
    by (metis length_dropWhile_le)
  then show "(ds, s) \<in> measure length" by simp
next
  fix s line rest :: string and c d :: char and cs ds :: string
  assume "rest = dropWhile (\<lambda>c. \<not> is_linebreak c) s" "rest = c # cs"
  then have "length (c # cs) \<le> length s"
    by (metis length_dropWhile_le)
  then show "(cs, s) \<in> measure length" by simp
next
  fix s line rest :: string and c :: char and cs :: string
  assume "rest = dropWhile (\<lambda>c. \<not> is_linebreak c) s" "rest = c # cs"
  then have "length (c # cs) \<le> length s"
    by (metis length_dropWhile_le)
  then show "(cs, s) \<in> measure length" by simp
qed

declare py_splitlines.simps [simp del]

text \<open>\<^verbatim>\<open>str(n)\<close> for an integer: decimal digits, with a minus sign in front of a
  negative number.\<close>

definition digit_char :: "nat \<Rightarrow> char" where
  "digit_char d = ascii_digits ! d"

function str_nat :: "nat \<Rightarrow> string" where
  "str_nat n = (if n < 10 then [digit_char n] else str_nat (n div 10) @ [digit_char (n mod 10)])"
  by pat_completeness auto
termination
  by (relation "measure id") auto

declare str_nat.simps [simp del]

definition str_int :: "int \<Rightarrow> string" where
  "str_int i = (if i < 0 then CHR ''-'' # str_nat (nat (- i)) else str_nat (nat i))"

text \<open>\<^verbatim>\<open>str.isnumeric()\<close>.\<close>

definition isnumeric :: "string \<Rightarrow> bool" where
  "isnumeric s = (s \<noteq> [] \<and> list_all is_numeric_char s)"

text \<open>The exceptions the text pipeline can raise.\<close>

datatype error = ValueError | IndexError

text \<open>\<^verbatim>\<open>int(s)\<close>, as the converter calls it: on a string that \<^verbatim>\<open>isnumeric()\<close> has
  accepted. Python reads decimal digits and raises \<^verbatim>\<open>ValueError\<close> on a superscript or a
  fraction; signs, blanks and underscores cannot occur in a numeric string.\<close>

definition digit_value :: "char \<Rightarrow> int" where
  "digit_value c = int (length (takeWhile (\<lambda>d. d \<noteq> c) ascii_digits))"

definition py_int :: "string \<Rightarrow> error + int" where
  "py_int s =
     (if s \<noteq> [] \<and> list_all is_digit s
      then Inr (fold (\<lambda>c acc. 10 * acc + digit_value c) s 0)
      else Inl ValueError)"

text \<open>\<^verbatim>\<open>sub in s\<close> on strings: \<^verbatim>\<open>sub\<close> occurs in \<^verbatim>\<open>s\<close> as a contiguous run.\<close>

fun is_prefix :: "string \<Rightarrow> string \<Rightarrow> bool" where
  "is_prefix [] s = True"
| "is_prefix (x # xs) [] = False"
| "is_prefix (x # xs) (c # cs) = (x = c \<and> is_prefix xs cs)"

fun py_in :: "string \<Rightarrow> string \<Rightarrow> bool" where
  "py_in sub [] = (sub = [])"
| "py_in sub (c # cs) = (is_prefix sub (c # cs) \<or> py_in sub cs)"

text \<open>\<^verbatim>\<open>s.endswith(t)\<close> for a tuple \<^verbatim>\<open>t\<close> of one-character strings.\<close>

definition endswith_any :: "string \<Rightarrow> char list \<Rightarrow> bool" where
  "endswith_any s cs = (s \<noteq> [] \<and> last s \<in> set cs)"

section \<open>Regular expressions\<close>

text \<open>
  The patterns of the converter are built from a small part of Python's \<^verbatim>\<open>re\<close>. A
  cursor is a position in the subject: the text before it and the text after it. A
  matcher maps a cursor to the cursors at which a match of the pattern can end, in the
  order in which the backtracking engine tries them. All patterns are compiled with
  \<^verbatim>\<open>re.IGNORECASE\<close> or contain no letter.
\<close>

type_synonym cursor = "string \<times> string"
type_synonym matcher = "cursor \<Rightarrow> cursor list"

text \<open>One character of a class.\<close>

definition m_class :: "(char \<Rightarrow> bool) \<Rightarrow> matcher" where
  "m_class P = (\<lambda>(before, after).
     case after of [] \<Rightarrow> [] | c # cs \<Rightarrow> if P c then [(before @ [c], cs)] else [])"

definition m_seq :: "matcher \<Rightarrow> matcher \<Rightarrow> matcher" where
  "m_seq p q = (\<lambda>cur. concat (map q (p cur)))"

definition m_alts :: "matcher list \<Rightarrow> matcher" where
  "m_alts ps = (\<lambda>cur. concat (map (\<lambda>p. p cur) ps))"

text \<open>\<^verbatim>\<open>(?:p)?\<close>, greedy.\<close>

definition m_opt :: "matcher \<Rightarrow> matcher" where
  "m_opt p = (\<lambda>cur. p cur @ [cur])"

text \<open>\<^verbatim>\<open>[...]*\<close> and \<^verbatim>\<open>[...]+\<close> on a class, greedy: the longest run first.\<close>

fun m_star_class :: "(char \<Rightarrow> bool) \<Rightarrow> matcher" where
  "m_star_class P (before, []) = [(before, [])]"
| "m_star_class P (before, c # cs) =
     (if P c then m_star_class P (before @ [c], cs) @ [(before, c # cs)]
      else [(before, c # cs)])"

definition m_plus_class :: "(char \<Rightarrow> bool) \<Rightarrow> matcher" where
  "m_plus_class P = m_seq (m_class P) (m_star_class P)"

text \<open>\<^verbatim>\<open>[...]{0,n}\<close> on a class, greedy.\<close>

fun m_upto_class :: "nat \<Rightarrow> (char \<Rightarrow> bool) \<Rightarrow> matcher" where
  "m_upto_class 0 P = (\<lambda>cur. [cur])"
| "m_upto_class (Suc n) P = m_opt (m_seq (m_class P) (m_upto_class n P))"

text \<open>The characters that a character of a pattern matches under \<^verbatim>\<open>re.IGNORECASE\<close>:
  itself and, for a letter, its other case; on this range a letter has no further case
  variant.\<close>

definition case_variants :: "char \<Rightarrow> char list" where
  "case_variants x =
     x # (case map_of (zip (ascii_lowercase @ latin1_lowercase @ ascii_uppercase @ latin1_uppercase)
                           (ascii_uppercase @ latin1_uppercase @ ascii_lowercase @ latin1_lowercase)) x of
            Some y \<Rightarrow> [y]
          | None \<Rightarrow> [])"

definition ic_eq :: "char \<Rightarrow> char \<Rightarrow> bool" where
  "ic_eq x c = (c \<in> set (case_variants x))"

text \<open>A literal under \<^verbatim>\<open>re.IGNORECASE\<close>.\<close>

fun m_lit :: "string \<Rightarrow> matcher" where
  "m_lit [] = (\<lambda>cur. [cur])"
| "m_lit (x # xs) = m_seq (m_class (ic_eq x)) (m_lit xs)"

text \<open>\<^verbatim>\<open>^\<close> and \<^verbatim>\<open>$\<close> without \<^verbatim>\<open>re.MULTILINE\<close>: the start of the subject; its end,
  or the place before a line feed that ends it.\<close>

definition m_bol :: matcher where
  "m_bol = (\<lambda>(before, after). if before = [] then [(before, after)] else [])"

definition m_eol :: matcher where
  "m_eol = (\<lambda>(before, after).
     if after = [] \<or> after = [CHR 0x0A] then [(before, after)] else [])"

text \<open>\<^verbatim>\<open>(?=\b)\<close>: a word character on exactly one side of the cursor.\<close>

definition at_word_boundary :: "cursor \<Rightarrow> bool" where
  "at_word_boundary = (\<lambda>(before, after).
     (before \<noteq> [] \<and> is_word_char (last before)) \<noteq> (after \<noteq> [] \<and> is_word_char (hd after)))"

definition m_word_boundary :: matcher where
  "m_word_boundary = (\<lambda>cur. if at_word_boundary cur then [cur] else [])"

text \<open>\<^verbatim>\<open>pattern.match(s)\<close>, read as a truth value: some match starts at the beginning
  of \<^verbatim>\<open>s\<close>.\<close>

definition re_match :: "matcher \<Rightarrow> string \<Rightarrow> bool" where
  "re_match p s = (p ([], s) \<noteq> [])"

text \<open>\<^verbatim>\<open>re.sub(p, "", s)\<close> for a pattern whose matches are never empty: at each position
  the first match the engine finds is removed, and the scan goes on behind it.\<close>

function re_sub_empty :: "matcher \<Rightarrow> cursor \<Rightarrow> string" where
  "re_sub_empty p (before, []) = []"
| "re_sub_empty p (before, c # cs) =
     (case p (before, c # cs) of
        [] \<Rightarrow> c # re_sub_empty p (before @ [c], cs)
      | (before', after') # _ \<Rightarrow>
          if length after' \<le> length cs then re_sub_empty p (before', after')
          else c # re_sub_empty p (before @ [c], cs))"
  by pat_completeness auto
termination
  by (relation "measure (\<lambda>(p, before, after). length after)") auto

section \<open>The converter\<close>

subsection \<open>Numerals and patterns\<close>

text \<open>\<^verbatim>\<open>_strip_tags\<close>: \<^verbatim>\<open>re.sub(r"<[^>]*>", "", text)\<close>.\<close>

definition tag_pattern :: matcher where
  "tag_pattern =
     m_seq (m_class (\<lambda>c. c = CHR ''<''))
       (m_seq (m_star_class (\<lambda>c. c \<noteq> CHR ''>'')) (m_class (\<lambda>c. c = CHR ''>'')))"

definition strip_tags :: "string \<Rightarrow> string" where
  "strip_tags text = re_sub_empty tag_pattern ([], text)"

text \<open>\<^verbatim>\<open>_generate_textual_numbers\<close>.\<close>

definition units :: "string list" where
  "units = [''ONE'', ''TWO'', ''THREE'', ''FOUR'', ''FIVE'', ''SIX'', ''SEVEN'', ''EIGHT'', ''NINE'']"

definition teens :: "string list" where
  "teens = [''TEN'', ''ELEVEN'', ''TWELVE'', ''THIRTEEN'', ''FOURTEEN'',
            ''FIFTEEN'', ''SIXTEEN'', ''SEVENTEEN'', ''EIGHTEEN'', ''NINETEEN'']"

definition tens :: "string list" where
  "tens = [''TWENTY'', ''THIRTY'', ''FORTY'', ''FIFTY'', ''SIXTY'', ''SEVENTY'', ''EIGHTY'', ''NINETY'']"

definition numbers_below_100 :: "string list" where
  "numbers_below_100 =
     units @ teens @
     concat (map (\<lambda>ten. ten # concat (map (\<lambda>unit. [ten @ ''-'' @ unit, ten @ '' '' @ unit]) units)) tens)"

definition hundreds :: "string list" where
  "hundreds =
     concat (map (\<lambda>unit. (unit @ '' HUNDRED'') #
                          map (\<lambda>number. unit @ '' HUNDRED AND '' @ number) numbers_below_100) units)"

definition generate_textual_numbers :: "string list" where
  "generate_textual_numbers = numbers_below_100 @ hundreds @ [''ONE THOUSAND'']"

text \<open>The class \<^verbatim>\<open>[IVXLCDM]\<close> under \<^verbatim>\<open>re.IGNORECASE\<close>.\<close>

definition is_roman_letter :: "char \<Rightarrow> bool" where
  "is_roman_letter c = list_ex (\<lambda>x. ic_eq x c) ''IVXLCDM''"

text \<open>\<^verbatim>\<open>\d{1,3}(?=\b)\<close>.\<close>

definition m_arabic :: matcher where
  "m_arabic = m_seq (m_seq (m_class is_digit) (m_upto_class 2 is_digit)) m_word_boundary"

text \<open>\<^verbatim>\<open>(?:\d{1,3}(?=\b)|[IVXLCDM]+|ONE|TWO|...)\<close>: the numeral after the word
  \<^verbatim>\<open>Chapter\<close>; \<^verbatim>\<open>re.escape\<close> makes every generated number a literal.\<close>

definition m_numeral :: matcher where
  "m_numeral = m_alts ([m_arabic, m_plus_class is_roman_letter] @ map m_lit generate_textual_numbers)"

text \<open>\<^verbatim>\<open>_build_chapter_pattern\<close>, the five alternatives in the order of the source.\<close>

definition chapter_pattern :: matcher where
  "chapter_pattern =
     m_seq m_bol
       (m_seq
          (m_alts
            [m_seq (m_lit ''Chapter'') (m_seq (m_plus_class is_space) m_numeral),
             m_seq (m_lit ''CHAPTER'') (m_seq (m_plus_class is_space) m_numeral),
             m_seq (m_lit ''CHAPTER'')
               (m_seq (m_plus_class is_space)
                  (m_seq m_numeral
                     (m_opt (m_seq (m_plus_class (\<lambda>c. c = CHR '':'' \<or> c = CHR ''-'' \<or> is_space c))
                                   (m_plus_class (\<lambda>c. c \<noteq> CHR 0x0A)))))),
             m_plus_class is_roman_letter,
             m_arabic])
          m_eol)"

text \<open>\<^verbatim>\<open>_build_prologue_epilogue_pattern\<close>.\<close>

definition prologue_epilogue_pattern :: matcher where
  "prologue_epilogue_pattern =
     m_seq m_bol
       (m_seq
          (m_alts (map m_lit [''PROLOGUE'', ''EPILOGUE'', ''PREFACE'', ''FOREWORD'',
                              ''INTRODUCTION'', ''AFTERWORD'', ''POSTSCRIPT'']))
          m_eol)"

text \<open>\<^verbatim>\<open>_roman_to_int\<close>: the dictionary, and the loop over the reversed numeral with
  its two variables \<^verbatim>\<open>value\<close> and \<^verbatim>\<open>prev_value\<close>.\<close>

definition roman_map :: "char \<rightharpoonup> int" where
  "roman_map = map_of [(CHR ''I'', 1), (CHR ''V'', 5), (CHR ''X'', 10), (CHR ''L'', 50),
                       (CHR ''C'', 100), (CHR ''D'', 500), (CHR ''M'', 1000)]"

definition roman_get :: "char \<Rightarrow> int" where
  "roman_get c = (case roman_map c of Some v \<Rightarrow> v | None \<Rightarrow> 0)"

definition roman_step :: "char \<Rightarrow> int \<times> int \<Rightarrow> int \<times> int" where
  "roman_step c = (\<lambda>(val, prev_value).
     let current_value = roman_get c
     in (if current_value < prev_value then val - current_value else val + current_value,
         current_value))"

definition roman_to_int :: "string \<Rightarrow> int" where
  "roman_to_int roman = fst (fold roman_step (rev roman) (0, 0))"

text \<open>\<^verbatim>\<open>_convert_line_if_roman\<close> returns a number or the line it was given.\<close>

datatype py_value = PyInt int | PyStr string

definition roman_pattern :: matcher where
  "roman_pattern = m_seq m_bol (m_seq (m_plus_class is_roman_letter) m_eol)"

definition convert_line_if_roman :: "string \<Rightarrow> py_value" where
  "convert_line_if_roman line =
     (let stripped_line = py_upper (py_strip line)
      in if re_match roman_pattern stripped_line then PyInt (roman_to_int stripped_line)
         else PyStr line)"

text \<open>\<^verbatim>\<open>str(v)\<close>.\<close>

fun py_str :: "py_value \<Rightarrow> string" where
  "py_str (PyInt i) = str_int i"
| "py_str (PyStr s) = s"

subsection \<open>The line merger\<close>

text \<open>\<^verbatim>\<open>_merge_split_lines\<close>: the body of the loop on the pair
  \<^verbatim>\<open>(merged_text, prev_is_chapter)\<close>, and the loop.\<close>

definition is_heading :: "string \<Rightarrow> bool" where
  "is_heading stripped_line_wo_tags =
     (re_match chapter_pattern stripped_line_wo_tags
      \<or> re_match prologue_epilogue_pattern stripped_line_wo_tags)"

definition sentence_ends :: "char list" where
  "sentence_ends = [CHR ''.'', CHR '':'', CHR ''!'', CHR ''?'', CHR 0x0A, CHR 0x22, CHR 0x27,
                    CHR '')'', CHR '']'', CHR ''}'']"

definition merge_step :: "string \<Rightarrow> string \<times> bool \<Rightarrow> string \<times> bool" where
  "merge_step line = (\<lambda>(merged_text, prev_is_chapter).
     let stripped_line = py_strip line
     in if stripped_line = [] then (merged_text, prev_is_chapter)
        else
          let stripped_line_wo_tags = strip_tags stripped_line
          in if is_heading stripped_line_wo_tags
             then ((if merged_text \<noteq> [] then merged_text @ [CHR 0x0A] else merged_text)
                     @ [CHR 0x0A] @ stripped_line @ [CHR 0x0A],
                   True)
             else if merged_text \<noteq> [] \<and> \<not> endswith_any merged_text sentence_ends
             then (merged_text @ '' '' @ stripped_line, False)
             else
               ((if merged_text \<noteq> [] then merged_text @ [CHR 0x0A] else merged_text)
                  @ stripped_line
                  @ (if length (py_split stripped_line_wo_tags) = 1 \<and> prev_is_chapter
                     then [CHR 0x0A] else []),
                False))"

definition merge_split_lines :: "string list \<Rightarrow> string" where
  "merge_split_lines lines = fst (fold merge_step lines ([], False))"

subsection \<open>The chapter boundary detector\<close>

text \<open>The variables of the scanning loop of \<^verbatim>\<open>_detect_chapters\<close>.\<close>

record scan_state =
  start_indices :: "nat list"
  original_chapter_names :: "string list"
  prev_is_chapter :: bool
  chapter_number :: int
  consecutive_chapter_index :: int

definition scan_init :: scan_state where
  "scan_init = \<lparr>start_indices = [], original_chapter_names = [], prev_is_chapter = False,
                 chapter_number = 1, consecutive_chapter_index = 0\<rparr>"

text \<open>\<^verbatim>\<open>clean_line_numeric.isnumeric() and int(clean_line_numeric) != chapter_number\<close>;
  \<^verbatim>\<open>int\<close> may raise.\<close>

definition out_of_sequence :: "string \<Rightarrow> int \<Rightarrow> error + bool" where
  "out_of_sequence clean_line_numeric number =
     (if isnumeric clean_line_numeric
      then (case py_int clean_line_numeric of
              Inl e \<Rightarrow> Inl e
            | Inr n \<Rightarrow> Inr (n \<noteq> number))
      else Inr False)"

text \<open>The inner loop that looks for a subtitle in \<^verbatim>\<open>lines[i+1 : min(i+3, len(lines))]\<close>:
  the first line that is not blank ends the search, and is appended when it has at most
  two words.\<close>

fun with_subtitle :: "string \<Rightarrow> string list \<Rightarrow> string" where
  "with_subtitle chapter_name [] = chapter_name"
| "with_subtitle chapter_name (l # ls) =
     (if py_strip l \<noteq> []
      then (let next_line = py_strip l;
                ws = py_split (strip_tags next_line)
            in if length ws \<le> 2 then chapter_name @ '' '' @ next_line else chapter_name)
      else with_subtitle chapter_name ls)"

text \<open>\<^verbatim>\<open>xs[a:b]\<close> for indices that are not negative.\<close>

definition py_slice :: "'a list \<Rightarrow> nat \<Rightarrow> nat \<Rightarrow> 'a list" where
  "py_slice xs a b = drop a (take b xs)"

text \<open>The body of the scanning loop, at line \<^verbatim>\<open>i\<close> of \<^verbatim>\<open>lines\<close>.\<close>

definition scan_step :: "string list \<Rightarrow> nat \<times> string \<Rightarrow> scan_state \<Rightarrow> error + scan_state" where
  "scan_step lines = (\<lambda>(i, line) st.
     let clean_line = strip_tags (py_strip line)
     in if clean_line = [] then Inr st
        else if re_match chapter_pattern clean_line
        then
          (let clean_line_numeric = py_str (convert_line_if_roman clean_line);
               st = st\<lparr>consecutive_chapter_index :=
                          (if prev_is_chapter st then consecutive_chapter_index st + 1 else 0)\<rparr>
           in case out_of_sequence clean_line_numeric (chapter_number st) of
                Inl e \<Rightarrow> Inl e
              | Inr wrong_number \<Rightarrow>
                  if wrong_number \<or> prev_is_chapter st
                  then
                    (let st = (if consecutive_chapter_index st = 1 \<and> start_indices st \<noteq> []
                               then st\<lparr>start_indices := butlast (start_indices st),
                                        original_chapter_names := butlast (original_chapter_names st),
                                        chapter_number := chapter_number st - 1\<rparr>
                               else st)
                     in Inr (st\<lparr>prev_is_chapter := False\<rparr>))
                  else
                    Inr (st\<lparr>chapter_number := chapter_number st + 1,
                            prev_is_chapter := True,
                            start_indices := start_indices st @ [i],
                            original_chapter_names := original_chapter_names st @
                              [with_subtitle clean_line (py_slice lines (i + 1) (min (i + 3) (length lines)))]\<rparr>))
        else if re_match prologue_epilogue_pattern clean_line
        then
          (if \<not> (py_upper clean_line = ''EPILOGUE'' \<and> length (start_indices st) = 0)
           then Inr (st\<lparr>prev_is_chapter := True,
                        start_indices := start_indices st @ [i],
                        original_chapter_names := original_chapter_names st @ [line]\<rparr>)
           else Inr st)
        else Inr (st\<lparr>prev_is_chapter := False\<rparr>))"

text \<open>The loop \<^verbatim>\<open>for i, line in enumerate(lines)\<close>; an exception ends it.\<close>

fun scan_loop :: "string list \<Rightarrow> (nat \<times> string) list \<Rightarrow> scan_state \<Rightarrow> error + scan_state" where
  "scan_loop lines [] st = Inr st"
| "scan_loop lines (x # xs) st =
     (case scan_step lines x st of Inl e \<Rightarrow> Inl e | Inr st' \<Rightarrow> scan_loop lines xs st')"

definition scan_lines :: "string list \<Rightarrow> error + scan_state" where
  "scan_lines lines = scan_loop lines (enumerate 0 lines) scan_init"

text \<open>The lines of chapter \<^verbatim>\<open>i\<close>, \<^verbatim>\<open>lines[start_indices[i]:start_indices[i + 1]]\<close>, and
  the pair appended for it; reading \<^verbatim>\<open>original_chapter_names[i]\<close> raises when the
  list is too short.\<close>

definition chapter_lines :: "string list \<Rightarrow> nat list \<Rightarrow> nat \<Rightarrow> string list" where
  "chapter_lines lines indices i = py_slice lines (indices ! i) (indices ! (i + 1))"

definition chapter_at :: "string list \<Rightarrow> nat list \<Rightarrow> string list \<Rightarrow> nat \<Rightarrow> error + (string \<times> string)" where
  "chapter_at lines indices names i =
     (if i < length names
      then Inr (py_strip (py_join [CHR 0x0A] (chapter_lines lines indices i)), names ! i)
      else Inl IndexError)"

fun collect :: "(error + 'a) list \<Rightarrow> error + 'a list" where
  "collect [] = Inr []"
| "collect (Inl e # rs) = Inl e"
| "collect (Inr x # rs) = (case collect rs of Inl e \<Rightarrow> Inl e | Inr xs \<Rightarrow> Inr (x # xs))"

text \<open>\<^verbatim>\<open>_detect_chapters\<close>: the scan, the end of the text appended to the boundaries,
  and the two branches of \<^verbatim>\<open>if start_indices\<close>.\<close>

definition detect_chapters :: "string \<Rightarrow> error + ((string \<times> string) list \<times> string list)" where
  "detect_chapters pdf_text =
     (let lines = py_splitlines pdf_text
      in case scan_lines lines of
           Inl e \<Rightarrow> Inl e
         | Inr st \<Rightarrow>
             (let indices = start_indices st @ [length lines]
              in if indices \<noteq> []
                 then (case collect (map (chapter_at lines indices (original_chapter_names st))
                                         [0..<length indices - 1]) of
                         Inl e \<Rightarrow> Inl e
                       | Inr chapters \<Rightarrow> Inr (chapters, take (hd indices) lines))
                 else Inr ([(pdf_text, ''Chapter 1'')], [])))"

subsection \<open>The paragraph segmenter\<close>

text \<open>\<^verbatim>\<open>_detect_paragraphs\<close>: the body of the loop on the pair
  \<^verbatim>\<open>(paragraphs, current_paragraph)\<close>, and what follows the loop.\<close>

definition paragraph_step :: "nat \<times> string \<Rightarrow> string list \<times> string list \<Rightarrow> string list \<times> string list" where
  "paragraph_step = (\<lambda>(i, line) (paragraphs, current_paragraph).
     let stripped_line = py_strip line;
         (paragraphs, current_paragraph) =
           (if stripped_line \<noteq> [] \<and>
               (i = 0 \<or> (is_upper_char (hd stripped_line) \<and> current_paragraph \<noteq> []
                          \<and> endswith_any (last current_paragraph) ''.''))
            then (if current_paragraph \<noteq> []
                  then (paragraphs @ [py_join '' '' current_paragraph], [])
                  else (paragraphs, current_paragraph))
            else (paragraphs, current_paragraph))
     in (paragraphs,
         if stripped_line \<noteq> [] then current_paragraph @ [stripped_line] else current_paragraph))"

definition detect_paragraphs :: "string list \<Rightarrow> string list" where
  "detect_paragraphs lines =
     (let (paragraphs, current_paragraph) = fold paragraph_step (enumerate 0 lines) ([], [])
      in if current_paragraph \<noteq> [] then paragraphs @ [py_join '' '' current_paragraph]
         else paragraphs)"

subsection \<open>The content renderer\<close>

text \<open>The fields of \<^verbatim>\<open>epub.EpubHtml\<close> that \<^verbatim>\<open>_add_chapters_to_epub\<close> sets.\<close>

record epub_html =
  title :: string
  file_name :: string
  lang :: string
  content :: string

text \<open>The loop \<^verbatim>\<open>for para in paragraphs\<close> on \<^verbatim>\<open>html_content\<close>.\<close>

definition add_paragraph :: "string \<Rightarrow> string \<Rightarrow> string \<Rightarrow> string" where
  "add_paragraph chapter_name para html_content =
     (if \<not> py_in para chapter_name \<and> py_strip para \<noteq> []
      then html_content @ ''<p>'' @ para @ ''</p>''
      else html_content)"

text \<open>The content of one chapter. The two assignments to \<^verbatim>\<open>start_idx\<close> and
  \<^verbatim>\<open>content_text\<close> raise nothing and are never read.\<close>

definition chapter_content :: "string \<Rightarrow> string \<Rightarrow> string" where
  "chapter_content chapter_text chapter_name =
     (let paragraphs = detect_paragraphs (py_splitlines chapter_text);
          html_content = ''<h1>'' @ chapter_name @ ''</h1>''
      in fold (add_paragraph chapter_name) paragraphs html_content)"

text \<open>\<^verbatim>\<open>_add_chapters_to_epub\<close>: the items stored in \<^verbatim>\<open>self.chapter_items\<close>.\<close>

definition add_chapters_to_epub :: "(string \<times> string) list \<Rightarrow> epub_html list" where
  "add_chapters_to_epub chapters =
     map (\<lambda>(i, (chapter_text, chapter_name)).
            \<lparr>title = chapter_name,
             file_name = ''chapter_'' @ str_int (int i) @ ''.xhtml'',
             lang = ''en'',
             content = chapter_content chapter_text chapter_name\<rparr>)
         (enumerate 1 chapters)"

section \<open>Reference descriptions\<close>

text \<open>
  The descriptions that the properties below compare the converter with. They follow the
  wording of the specification, not the code.
\<close>

subsection \<open>Roman numerals\<close>

text \<open>The value of a symbol in either case, and the value of a numeral: a symbol is
  subtracted when the symbol that follows it is strictly greater and added otherwise. A
  token is a Roman numeral when it is not empty and made of the seven letters only.\<close>

definition symbol_value :: "char \<Rightarrow> int" where
  "symbol_value c =
     (if c \<in> set ''Ii'' then 1 else if c \<in> set ''Vv'' then 5 else if c \<in> set ''Xx'' then 10
      else if c \<in> set ''Ll'' then 50 else if c \<in> set ''Cc'' then 100
      else if c \<in> set ''Dd'' then 500 else if c \<in> set ''Mm'' then 1000 else 0)"

fun roman_value :: "string \<Rightarrow> int" where
  "roman_value [] = 0"
| "roman_value [c] = symbol_value c"
| "roman_value (c # d # cs) =
     (if symbol_value c < symbol_value d then - symbol_value c else symbol_value c)
     + roman_value (d # cs)"

definition roman_token :: "string \<Rightarrow> bool" where
  "roman_token u = (u \<noteq> [] \<and> list_all is_roman_letter u)"

subsection \<open>Chapter headings\<close>

text \<open>A line is a chapter heading when it is the word \<^verbatim>\<open>Chapter\<close> in any case, white
  space, a numeral (one to three digits, a Roman numeral, or one of the generated
  spelled-out numbers in any case) and then nothing more or a separator followed by a
  title; or when it is a bare Arabic or Roman numeral. The parts of a line are found among
  its splits, so that the description can be evaluated.\<close>

definition same_ignoring_case :: "string \<Rightarrow> string \<Rightarrow> bool" where
  "same_ignoring_case t x = list_all2 ic_eq t x"

definition is_arabic :: "string \<Rightarrow> bool" where
  "is_arabic x = (1 \<le> length x \<and> length x \<le> 3 \<and> list_all is_digit x)"

definition is_cardinal :: "string \<Rightarrow> bool" where
  "is_cardinal x = list_ex (\<lambda>t. same_ignoring_case t x) generate_textual_numbers"

definition is_numeral :: "string \<Rightarrow> bool" where
  "is_numeral x = (is_arabic x \<or> roman_token x \<or> is_cardinal x)"

definition is_separator_char :: "char \<Rightarrow> bool" where
  "is_separator_char c = (c = CHR '':'' \<or> c = CHR ''-'' \<or> is_space c)"

definition splits :: "string \<Rightarrow> (string \<times> string) list" where
  "splits s = map (\<lambda>i. (take i s, drop i s)) [0..<Suc (length s)]"

definition has_title :: "string \<Rightarrow> bool" where
  "has_title tail =
     list_ex (\<lambda>(sep, title_text). sep \<noteq> [] \<and> list_all is_separator_char sep \<and> title_text \<noteq> []) (splits tail)"

definition chapter_heading_form :: "string \<Rightarrow> bool" where
  "chapter_heading_form s =
     list_ex (\<lambda>(kw, r1). same_ignoring_case ''Chapter'' kw \<and>
       list_ex (\<lambda>(ws, r2). ws \<noteq> [] \<and> list_all is_space ws \<and>
         list_ex (\<lambda>(num, tail). is_numeral num \<and> (tail = [] \<or> has_title tail)) (splits r2))
         (splits r1))
       (splits s)"

definition chapter_line_spec :: "string \<Rightarrow> bool" where
  "chapter_line_spec s = (chapter_heading_form s \<or> is_arabic s \<or> roman_token s)"

subsection \<open>Front-matter headings\<close>

text \<open>A line is a front-matter heading when it is one of seven words in any case.\<close>

definition front_matter_words :: "string list" where
  "front_matter_words = [''PROLOGUE'', ''EPILOGUE'', ''PREFACE'', ''FOREWORD'',
                         ''INTRODUCTION'', ''AFTERWORD'', ''POSTSCRIPT'']"

definition front_matter_spec :: "string \<Rightarrow> bool" where
  "front_matter_spec s = list_ex (\<lambda>t. same_ignoring_case t s) front_matter_words"

subsection \<open>Paragraphs\<close>

text \<open>The lines that are not blank, trimmed, are grouped in order: the first one starts a
  paragraph; a line starts a new paragraph when it begins with an upper-case letter and
  the paragraph accumulated so far ends with a period; every other line is appended to
  the current paragraph after a blank.\<close>

fun paragraphs_from :: "string \<Rightarrow> string list \<Rightarrow> string list" where
  "paragraphs_from current [] = [current]"
| "paragraphs_from current (l # ls) =
     (if is_upper_char (hd l) \<and> endswith_any current ''.''
      then current # paragraphs_from l ls
      else paragraphs_from (current @ '' '' @ l) ls)"

definition paragraphs_spec :: "string list \<Rightarrow> string list" where
  "paragraphs_spec lines =
     (case filter (\<lambda>l. l \<noteq> []) (map py_strip lines) of
        [] \<Rightarrow> []
      | l # ls \<Rightarrow> paragraphs_from l ls)"

subsection \<open>Rendered paragraphs\<close>

text \<open>A paragraph is rendered unless its text occurs somewhere in the chapter title or
  it is blank.\<close>

definition paragraph_kept :: "string \<Rightarrow> string \<Rightarrow> bool" where
  "paragraph_kept chapter_name para =
     (\<not> (\<exists>pre post. chapter_name = pre @ para @ post) \<and> py_strip para \<noteq> [])"

definition kept_paragraphs :: "string \<Rightarrow> string \<Rightarrow> string list" where
  "kept_paragraphs chapter_text chapter_name =
     filter (paragraph_kept chapter_name) (detect_paragraphs (py_splitlines chapter_text))"

subsection \<open>Auxiliary functions of the proofs\<close>

text \<open>The body of the loop of \<^verbatim>\<open>_detect_paragraphs\<close> without the index, and the
  statements after the loop.\<close>

definition paragraph_step' :: "string \<Rightarrow> string list \<times> string list \<Rightarrow> string list \<times> string list" where
  "paragraph_step' line = (\<lambda>(ps, cur).
     let l = py_strip line
     in if l = [] then (ps, cur)
        else if cur \<noteq> [] \<and> is_upper_char (hd l) \<and> endswith_any (last cur) ''.''
        then (ps @ [py_join '' '' cur], [l])
        else (ps, cur @ [l]))"

definition finish_paragraphs :: "string list \<times> string list \<Rightarrow> string list" where
  "finish_paragraphs = (\<lambda>(ps, cur). if cur \<noteq> [] then ps @ [py_join '' '' cur] else ps)"

text \<open>What a matcher consumes, as a relation between the text before it, the text it
  consumes and the text after it; a match that ends where \<^verbatim>\<open>$\<close> holds; the numeral
  in front of the rest of the line; the characters a numeral can begin with.\<close>

definition numeral_before :: "string \<Rightarrow> string \<Rightarrow> bool" where
  "numeral_before num rest =
     (is_arabic num \<and> \<not> (rest \<noteq> [] \<and> is_word_char (hd rest)) \<or> roman_token num \<or> is_cardinal num)"

definition matches_as :: "matcher \<Rightarrow> (string \<Rightarrow> string \<Rightarrow> string \<Rightarrow> bool) \<Rightarrow> bool" where
  "matches_as p R =
     (\<forall>b a b' a'. (b', a') \<in> set (p (b, a)) \<longleftrightarrow> (\<exists>x. b' = b @ x \<and> a = x @ a' \<and> R b x a'))"

definition whole_line :: "matcher \<Rightarrow> string \<Rightarrow> bool" where
  "whole_line p s = (\<exists>b' a'. (b', a') \<in> set (p ([], s)) \<and> (a' = [] \<or> a' = [CHR 0x0A]))"



text \<open>The invariant of the scanning loop before line \<^verbatim>\<open>n\<close>: the boundaries increase,
  lie before \<^verbatim>\<open>n\<close>, and each has its name. A body line is a line that is neither blank
  nor a heading. The spans of the chapters are the runs of lines between one boundary and
  the next.\<close>

definition scan_inv :: "nat \<Rightarrow> scan_state \<Rightarrow> bool" where
  "scan_inv n st =
     (sorted_wrt (<) (start_indices st) \<and> (\<forall>k\<in>set (start_indices st). k < n)
      \<and> length (original_chapter_names st) = length (start_indices st))"

definition body_line :: "string \<Rightarrow> bool" where
  "body_line l =
     (strip_tags (py_strip l) \<noteq> []
      \<and> \<not> re_match chapter_pattern (strip_tags (py_strip l))
      \<and> \<not> re_match prologue_epilogue_pattern (strip_tags (py_strip l)))"

definition chapter_spans :: "string list \<Rightarrow> nat list \<Rightarrow> string list list" where
  "chapter_spans lines indices = map (chapter_lines lines indices) [0..<length indices - 1]"

section \<open>Properties\<close>

subsection \<open>Regular expressions\<close>

lemma set_m_class: "set (m_class P (b, a)) = {(b @ [c], cs) | c cs. a = c # cs \<and> P c}"
  by (auto simp: m_class_def split: list.splits)

lemma set_m_seq: "set (m_seq p q cur) = (\<Union>c\<in>set (p cur). set (q c))"
  by (simp add: m_seq_def)

lemma set_m_alts: "set (m_alts ps cur) = (\<Union>p\<in>set ps. set (p cur))"
  by (simp add: m_alts_def)

lemma set_m_opt: "set (m_opt p cur) = insert cur (set (p cur))"
  by (simp add: m_opt_def)

lemma set_m_star_class:
  "set (m_star_class P (b, a)) = {(b @ x, y) | x y. a = x @ y \<and> list_all P x}"
proof (induction a arbitrary: b)
  case Nil
  show ?case by auto
next
  case (Cons c cs)
  show ?case
  proof (cases "P c")
    case False
    then show ?thesis by (auto simp: Cons_eq_append_conv)
  next
    case True
    have "set (m_star_class P (b, c # cs))
          = insert (b, c # cs) {((b @ [c]) @ x, y) | x y. cs = x @ y \<and> list_all P x}"
      using True Cons.IH [of "b @ [c]"] by simp
    also have "\<dots> = {(b @ x, y) | x y. c # cs = x @ y \<and> list_all P x}"
      using True by (auto simp: Cons_eq_append_conv) 
    finally show ?thesis .
  qed
qed

lemma set_m_plus_class:
  "set (m_plus_class P (b, a)) = {(b @ x, y) | x y. a = x @ y \<and> x \<noteq> [] \<and> list_all P x}"
proof -
  have "set (m_plus_class P (b, a))
        = (\<Union>cur\<in>{(b @ [c], cs) | c cs. a = c # cs \<and> P c}. set (m_star_class P cur))"
    by (simp add: m_plus_class_def set_m_seq set_m_class)
  also have "\<dots> = {((b @ [c]) @ x, y) | c x y. a = c # x @ y \<and> P c \<and> list_all P x}"
    by (auto simp: set_m_star_class)
  also have "\<dots> = {(b @ x, y) | x y. a = x @ y \<and> x \<noteq> [] \<and> list_all P x}"
    apply (auto simp: Cons_eq_append_conv)
    subgoal for x y by (cases x) auto
    done
  finally show ?thesis .
qed

lemma in_m_bol: "(b', a') \<in> set (m_bol (b, a)) \<longleftrightarrow> b' = b \<and> a' = a \<and> b = []"
  by (auto simp: m_bol_def)

lemma in_m_eol: "(b', a') \<in> set (m_eol (b, a)) \<longleftrightarrow> b' = b \<and> a' = a \<and> (a = [] \<or> a = [CHR 0x0A])"
  by (auto simp: m_eol_def)

lemma in_m_seq:
  "(b'', a'') \<in> set (m_seq p q (b, a)) \<longleftrightarrow>
     (\<exists>b' a'. (b', a') \<in> set (p (b, a)) \<and> (b'', a'') \<in> set (q (b', a')))"
  by (auto simp: set_m_seq)

lemma in_m_plus_class:
  "(b', a') \<in> set (m_plus_class P (b, a)) \<longleftrightarrow>
     (\<exists>x. b' = b @ x \<and> a = x @ a' \<and> x \<noteq> [] \<and> list_all P x)"
  by (auto simp: set_m_plus_class)

lemma re_match_iff: "re_match p s \<longleftrightarrow> (\<exists>b a. (b, a) \<in> set (p ([], s)))"
  by (cases "p ([], s)") (auto simp: re_match_def)

lemma roman_pattern_iff:
  "re_match roman_pattern u \<longleftrightarrow>
     (\<exists>x y. u = x @ y \<and> x \<noteq> [] \<and> list_all is_roman_letter x \<and> (y = [] \<or> y = [CHR 0x0A]))"
  by (auto simp: re_match_iff roman_pattern_def in_m_seq in_m_bol in_m_plus_class in_m_eol)

subsection \<open>Character tables\<close>

lemmas char_tables = ascii_lowercase_def ascii_uppercase_def latin1_lowercase_def
  latin1_uppercase_def ascii_digits_def

lemma upper_char_cases:
  "upper_char c = [c] \<or> upper_char c = ''SS'' \<and> c = CHR 0xDF
   \<or> (\<exists>u. upper_char c = [u] \<and> (c, u) \<in> set (zip (ascii_lowercase @ latin1_lowercase)
                                                     (ascii_uppercase @ latin1_uppercase)))"
  unfolding upper_char_def
  by (auto split: option.splits dest: map_of_SomeD)

lemma is_roman_letter_iff: "is_roman_letter c \<longleftrightarrow> c \<in> set ''IVXLCDMivxlcdm''"
  unfolding is_roman_letter_def ic_eq_def case_variants_def
  by (auto simp: char_tables)

lemma upper_char_roman_letters:
  "upper_char (CHR ''I'') = ''I''" "upper_char (CHR ''i'') = ''I''"
  "upper_char (CHR ''V'') = ''V''" "upper_char (CHR ''v'') = ''V''"
  "upper_char (CHR ''X'') = ''X''" "upper_char (CHR ''x'') = ''X''"
  "upper_char (CHR ''L'') = ''L''" "upper_char (CHR ''l'') = ''L''"
  "upper_char (CHR ''C'') = ''C''" "upper_char (CHR ''c'') = ''C''"
  "upper_char (CHR ''D'') = ''D''" "upper_char (CHR ''d'') = ''D''"
  "upper_char (CHR ''M'') = ''M''" "upper_char (CHR ''m'') = ''M''"
  by (simp_all add: upper_char_def char_tables)

subsection \<open>Roman numerals\<close>

lemma upper_char_roman:
  "is_roman_letter c \<Longrightarrow> \<exists>u. upper_char c = [u] \<and> roman_get u = symbol_value c"
  unfolding is_roman_letter_iff
  by (auto simp: upper_char_roman_letters roman_get_def roman_map_def symbol_value_def)

lemma upper_char_not_empty: "upper_char c \<noteq> []"
  using upper_char_cases [of c] by auto

lemma upper_char_table:
  "(c, u) \<in> set (zip (ascii_lowercase @ latin1_lowercase) (ascii_uppercase @ latin1_uppercase))
   \<Longrightarrow> is_roman_letter u = is_roman_letter c \<and> u \<noteq> CHR 0x0A"
  unfolding is_roman_letter_iff char_tables
  by (simp, elim disjE) simp_all


lemma upper_char_all_roman: "list_all is_roman_letter (upper_char c) \<longleftrightarrow> is_roman_letter c"
proof -
  consider "upper_char c = [c]" | "upper_char c = ''SS''" "c = CHR 0xDF"
    | u where "upper_char c = [u]"
        "(c, u) \<in> set (zip (ascii_lowercase @ latin1_lowercase) (ascii_uppercase @ latin1_uppercase))"
    using upper_char_cases [of c] by blast
  then show ?thesis
  proof cases
    case 1
    then show ?thesis by simp
  next
    case 2
    then show ?thesis by (simp add: is_roman_letter_iff)
  next
    case 3
    then show ?thesis using upper_char_table [of c u] by simp
  qed
qed

lemma upper_char_linefeed: "CHR 0x0A \<in> set (upper_char c) \<Longrightarrow> c = CHR 0x0A"
  using upper_char_cases [of c] upper_char_table [of c "CHR 0x0A"] by auto

lemma py_upper_all_roman: "list_all is_roman_letter (py_upper s) \<longleftrightarrow> list_all is_roman_letter s"
  by (induction s) (simp_all add: py_upper_def upper_char_all_roman)

lemma py_upper_empty: "py_upper s = [] \<longleftrightarrow> s = []"
  by (cases s) (simp_all add: py_upper_def upper_char_not_empty)

lemma py_upper_last: "s \<noteq> [] \<Longrightarrow> last (py_upper s) \<in> set (upper_char (last s))"
proof (induction s rule: rev_induct)
  case Nil
  then show ?case by simp
next
  case (snoc c s)
  show ?case using upper_char_not_empty [of c] by (simp add: py_upper_def)
qed

lemma symbol_value_nonneg: "0 \<le> symbol_value c"
  by (simp add: symbol_value_def)

lemma roman_fold:
  "list_all is_roman_letter s \<Longrightarrow>
     fold roman_step (rev (py_upper s)) (0, 0)
       = (roman_value s, case s of [] \<Rightarrow> 0 | c # _ \<Rightarrow> symbol_value c)"
proof (induction s rule: roman_value.induct)
  case 1
  show ?case by (simp add: py_upper_def)
next
  case (2 c)
  then obtain u where "upper_char c = [u]" "roman_get u = symbol_value c"
    using upper_char_roman [of c] by auto
  then show ?case
    using symbol_value_nonneg [of c] by (simp add: py_upper_def roman_step_def Let_def)
next
  case (3 c d cs)
  then obtain u where u: "upper_char c = [u]" "roman_get u = symbol_value c"
    using upper_char_roman [of c] by auto
  have "fold roman_step (rev (py_upper (c # d # cs))) (0, 0)
        = roman_step u (fold roman_step (rev (py_upper (d # cs))) (0, 0))"
    using u by (simp add: py_upper_def)
  also have "\<dots> = roman_step u (roman_value (d # cs), symbol_value d)"
    using 3 by simp
  also have "\<dots> = (roman_value (c # d # cs), symbol_value c)"
    using u by (simp add: roman_step_def Let_def)
  finally show ?case by simp
qed

lemma roman_to_int_upper:
  "list_all is_roman_letter s \<Longrightarrow> roman_to_int (py_upper s) = roman_value s"
  by (simp add: roman_to_int_def roman_fold)

lemma py_strip_last: "py_strip t \<noteq> [] \<Longrightarrow> \<not> is_space (last (py_strip t))"
proof -
  assume ne: "py_strip t \<noteq> []"
  let ?r = "dropWhile is_space (rev (dropWhile is_space t))"
  have r: "?r \<noteq> []" using ne by (simp add: py_strip_def)
  then have "\<not> is_space (hd ?r)" by (rule hd_dropWhile)
  moreover have "last (py_strip t) = hd ?r"
    using r by (simp add: py_strip_def last_rev)
  ultimately show ?thesis by simp
qed

lemma roman_pattern_upper_strip:
  "re_match roman_pattern (py_upper (py_strip t)) \<longleftrightarrow> roman_token (py_strip t)"
proof
  assume "roman_token (py_strip t)"
  then have "py_upper (py_strip t) \<noteq> []" "list_all is_roman_letter (py_upper (py_strip t))"
    by (simp_all add: roman_token_def py_upper_empty py_upper_all_roman)
  then show "re_match roman_pattern (py_upper (py_strip t))"
    unfolding roman_pattern_iff by (intro exI [of _ "py_upper (py_strip t)"] exI [of _ "[]"]) simp
next
  assume "re_match roman_pattern (py_upper (py_strip t))"
  then obtain x y where xy: "py_upper (py_strip t) = x @ y" "x \<noteq> []" "list_all is_roman_letter x"
      "y = [] \<or> y = [CHR 0x0A]"
    unfolding roman_pattern_iff by blast
  have ne: "py_strip t \<noteq> []" using xy py_upper_empty [of "py_strip t"] by auto
  have "y = []"
  proof (rule ccontr)
    assume "y \<noteq> []"
    with xy have "last (py_upper (py_strip t)) = CHR 0x0A" by auto
    then have "CHR 0x0A \<in> set (upper_char (last (py_strip t)))"
      using py_upper_last [OF ne] by simp
    then have "last (py_strip t) = CHR 0x0A" by (rule upper_char_linefeed)
    then show False using py_strip_last [OF ne] by (simp add: is_space_def)
  qed
  with xy have "list_all is_roman_letter (py_upper (py_strip t))" by simp
  with ne show "roman_token (py_strip t)"
    by (simp add: roman_token_def py_upper_all_roman)
qed

lemma convert_line_if_roman_eq:
  "convert_line_if_roman t =
     (if roman_token (py_strip t) then PyInt (roman_value (py_strip t)) else PyStr t)"
  by (simp add: convert_line_if_roman_def Let_def roman_pattern_upper_strip roman_to_int_upper
        roman_token_def)


lemma py_strip_id:
  assumes "t \<noteq> []" "\<not> is_space (hd t)" "\<not> is_space (last t)"
  shows "py_strip t = t"
proof -
  have "dropWhile is_space t = t"
    using assms by (cases t) simp_all
  moreover have "\<not> is_space (hd (rev t))"
    using assms by (simp add: hd_rev)
  then have "dropWhile is_space (rev t) = rev t"
    using assms(1) by (cases "rev t") simp_all
  ultimately show ?thesis by (simp add: py_strip_def)
qed




subsection \<open>The chapter pattern\<close>

lemma in_splits: "(x, y) \<in> set (splits s) \<longleftrightarrow> s = x @ y"
proof
  assume "(x, y) \<in> set (splits s)"
  then show "s = x @ y" by (auto simp: splits_def)
next
  assume "s = x @ y"
  then have "x = take (length x) s" "y = drop (length x) s" "length x < Suc (length s)" by simp_all
  then show "(x, y) \<in> set (splits s)"
    unfolding splits_def by (metis (no_types, lifting) atLeastLessThan_iff image_eqI le0 set_map set_upt)
qed

lemma list_ex_splits: "list_ex P (splits s) \<longleftrightarrow> (\<exists>x y. s = x @ y \<and> P (x, y))"
  unfolding list_ex_iff using in_splits [of _ _ s] by auto

lemma has_title_iff:
  "has_title tail \<longleftrightarrow>
     (\<exists>sep title_text. tail = sep @ title_text \<and> sep \<noteq> [] \<and> list_all is_separator_char sep \<and> title_text \<noteq> [])"
  by (simp add: has_title_def list_ex_splits)

lemma chapter_heading_form_iff:
  "chapter_heading_form s \<longleftrightarrow>
     (\<exists>kw ws num tail. s = kw @ ws @ num @ tail \<and> same_ignoring_case ''Chapter'' kw
        \<and> ws \<noteq> [] \<and> list_all is_space ws \<and> is_numeral num \<and> (tail = [] \<or> has_title tail))"
proof -
  have "chapter_heading_form s \<longleftrightarrow>
     (\<exists>kw r1. s = kw @ r1 \<and> same_ignoring_case ''Chapter'' kw \<and>
        (\<exists>ws r2. r1 = ws @ r2 \<and> ws \<noteq> [] \<and> list_all is_space ws \<and>
           (\<exists>num tail. r2 = num @ tail \<and> is_numeral num \<and> (tail = [] \<or> has_title tail))))"
    by (simp add: chapter_heading_form_def list_ex_splits)
  also have "\<dots> \<longleftrightarrow>
     (\<exists>kw ws num tail. s = kw @ ws @ num @ tail \<and> same_ignoring_case ''Chapter'' kw
        \<and> ws \<noteq> [] \<and> list_all is_space ws \<and> is_numeral num \<and> (tail = [] \<or> has_title tail))"
    by blast
  finally show ?thesis .
qed

lemma in_m_class:
  "(b', a') \<in> set (m_class P (b, a)) \<longleftrightarrow> (\<exists>c. a = c # a' \<and> b' = b @ [c] \<and> P c)"
  by (auto simp: set_m_class)

lemma in_m_alts:
  "(b', a') \<in> set (m_alts ps cur) \<longleftrightarrow> (\<exists>p\<in>set ps. (b', a') \<in> set (p cur))"
  by (auto simp: set_m_alts)

lemma in_m_opt:
  "(b', a') \<in> set (m_opt p cur) \<longleftrightarrow> (b', a') = cur \<or> (b', a') \<in> set (p cur)"
  by (auto simp: set_m_opt)

lemma in_m_upto_class:
  "(b', a') \<in> set (m_upto_class n P (b, a)) \<longleftrightarrow>
     (\<exists>x. b' = b @ x \<and> a = x @ a' \<and> length x \<le> n \<and> list_all P x)"
proof (induction n arbitrary: b a)
  case 0
  show ?case by auto
next
  case (Suc n)
  show ?case
  proof
    assume "(b', a') \<in> set (m_upto_class (Suc n) P (b, a))"
    then consider "b' = b" "a' = a"
      | c x where "a = c # x @ a'" "b' = (b @ [c]) @ x" "P c" "length x \<le> n" "list_all P x"
      by (auto simp: in_m_opt in_m_seq in_m_class Suc.IH)
    then show "\<exists>x. b' = b @ x \<and> a = x @ a' \<and> length x \<le> Suc n \<and> list_all P x"
    proof cases
      case 1
      then show ?thesis by (intro exI [of _ "[]"]) simp
    next
      case 2
      then show ?thesis by (intro exI [of _ "c # x"]) simp
    qed
  next
    assume "\<exists>x. b' = b @ x \<and> a = x @ a' \<and> length x \<le> Suc n \<and> list_all P x"
    then obtain x where x: "b' = b @ x" "a = x @ a'" "length x \<le> Suc n" "list_all P x" by blast
    show "(b', a') \<in> set (m_upto_class (Suc n) P (b, a))"
    proof (cases x)
      case Nil
      then show ?thesis using x by (simp add: in_m_opt)
    next
      case (Cons c y)
      then have "(b', a') \<in> set (m_upto_class n P (b @ [c], y @ a'))"
        unfolding Suc.IH using x by (intro exI [of _ y]) simp
      then show ?thesis
        using x Cons by (auto simp: in_m_opt in_m_seq in_m_class)
    qed
  qed
qed

lemma in_m_lit:
  "(b', a') \<in> set (m_lit t (b, a)) \<longleftrightarrow> (\<exists>x. b' = b @ x \<and> a = x @ a' \<and> same_ignoring_case t x)"
proof (induction t arbitrary: b a)
  case Nil
  show ?case by (auto simp: same_ignoring_case_def)
next
  case (Cons c t)
  show ?case
  proof
    assume "(b', a') \<in> set (m_lit (c # t) (b, a))"
    then obtain d x where "a = d # x @ a'" "b' = (b @ [d]) @ x" "ic_eq c d" "same_ignoring_case t x"
      by (auto simp: in_m_seq in_m_class Cons.IH)
    then show "\<exists>x. b' = b @ x \<and> a = x @ a' \<and> same_ignoring_case (c # t) x"
      by (intro exI [of _ "d # x"]) (simp add: same_ignoring_case_def)
  next
    assume "\<exists>x. b' = b @ x \<and> a = x @ a' \<and> same_ignoring_case (c # t) x"
    then obtain d y where y: "b' = b @ d # y" "a = (d # y) @ a'" "ic_eq c d" "same_ignoring_case t y"
      by (auto simp: same_ignoring_case_def list_all2_Cons1)
    then have "(b', a') \<in> set (m_lit t (b @ [d], y @ a'))"
      unfolding Cons.IH by (intro exI [of _ y]) simp
    then show "(b', a') \<in> set (m_lit (c # t) (b, a))"
      using y by (auto simp: in_m_seq in_m_class)
  qed
qed

lemma digit_is_word: "is_digit c \<Longrightarrow> is_word_char c"
  by (simp add: is_word_char_def is_numeric_char_def)

lemma in_m_word_boundary:
  "(b', a') \<in> set (m_word_boundary (b, a)) \<longleftrightarrow> b' = b \<and> a' = a \<and> at_word_boundary (b, a)"
  by (auto simp: m_word_boundary_def)

lemma in_m_arabic:
  "(b', a') \<in> set (m_arabic (b, a)) \<longleftrightarrow>
     (\<exists>x. b' = b @ x \<and> a = x @ a' \<and> is_arabic x \<and> \<not> (a' \<noteq> [] \<and> is_word_char (hd a')))"
proof
  assume "(b', a') \<in> set (m_arabic (b, a))"
  then obtain c y where cy: "a = c # y @ a'" "b' = (b @ [c]) @ y" "is_digit c" "length y \<le> 2"
      "list_all is_digit y" "at_word_boundary (b', a')"
    by (auto simp: m_arabic_def in_m_seq in_m_class in_m_upto_class in_m_word_boundary)
  have "is_digit (last (c # y))" using cy by (auto simp: list_all_iff)
  then have "is_word_char (last b')" using cy by (simp add: digit_is_word)
  then have "\<not> (a' \<noteq> [] \<and> is_word_char (hd a'))"
    using cy by (simp add: at_word_boundary_def)
  then show "\<exists>x. b' = b @ x \<and> a = x @ a' \<and> is_arabic x \<and> \<not> (a' \<noteq> [] \<and> is_word_char (hd a'))"
    using cy by (intro exI [of _ "c # y"]) (simp add: is_arabic_def)
next
  assume "\<exists>x. b' = b @ x \<and> a = x @ a' \<and> is_arabic x \<and> \<not> (a' \<noteq> [] \<and> is_word_char (hd a'))"
  then obtain x where x: "b' = b @ x" "a = x @ a'" "is_arabic x" "\<not> (a' \<noteq> [] \<and> is_word_char (hd a'))"
    by blast
  then obtain c y where xc: "x = c # y" by (cases x) (auto simp: is_arabic_def)
  have "is_digit (last x)" using x xc by (auto simp: is_arabic_def list_all_iff)
  then have "is_word_char (last b')" using x xc by (simp add: digit_is_word)
  then have wb: "at_word_boundary (b', a')"
    using x xc by (simp add: at_word_boundary_def)
  have "(b', a') \<in> set (m_upto_class 2 is_digit (b @ [c], y @ a'))"
    unfolding in_m_upto_class using x xc by (intro exI [of _ y]) (simp add: is_arabic_def)
  then show "(b', a') \<in> set (m_arabic (b, a))"
    using x xc wb by (auto simp: m_arabic_def in_m_seq in_m_class in_m_word_boundary is_arabic_def)
qed

lemma in_m_numeral:
  "(b', a') \<in> set (m_numeral (b, a)) \<longleftrightarrow>
     (\<exists>x. b' = b @ x \<and> a = x @ a' \<and> numeral_before x a')"
  unfolding m_numeral_def in_m_alts numeral_before_def is_cardinal_def list_ex_iff roman_token_def
  by (auto simp: in_m_arabic in_m_plus_class in_m_lit)

lemma matches_asD:
  "matches_as p R \<Longrightarrow> (b', a') \<in> set (p (b, a)) \<longleftrightarrow> (\<exists>x. b' = b @ x \<and> a = x @ a' \<and> R b x a')"
  by (simp add: matches_as_def)

lemma matches_as_seq:
  assumes p: "matches_as p R1" and q: "matches_as q R2"
  shows "matches_as (m_seq p q) (\<lambda>b z a'. \<exists>x y. z = x @ y \<and> R1 b x (y @ a') \<and> R2 (b @ x) y a')"
  unfolding matches_as_def
proof (intro allI iffI)
  fix b a b'' a''
  assume "(b'', a'') \<in> set (m_seq p q (b, a))"
  then obtain b' a' where 1: "(b', a') \<in> set (p (b, a))" and 2: "(b'', a'') \<in> set (q (b', a'))"
    by (auto simp: in_m_seq)
  from 1 obtain x where x: "b' = b @ x" "a = x @ a'" "R1 b x a'"
    using matches_asD [OF p] by blast
  from 2 obtain y where y: "b'' = b' @ y" "a' = y @ a''" "R2 b' y a''"
    using matches_asD [OF q] by blast
  show "\<exists>z. b'' = b @ z \<and> a = z @ a'' \<and> (\<exists>x y. z = x @ y \<and> R1 b x (y @ a'') \<and> R2 (b @ x) y a'')"
    using x y by (intro exI [of _ "x @ y"]) auto
next
  fix b a b'' a''
  assume "\<exists>z. b'' = b @ z \<and> a = z @ a'' \<and> (\<exists>x y. z = x @ y \<and> R1 b x (y @ a'') \<and> R2 (b @ x) y a'')"
  then obtain x y where xy: "b'' = b @ x @ y" "a = (x @ y) @ a''" "R1 b x (y @ a'')" "R2 (b @ x) y a''"
    by blast
  have "(b @ x, y @ a'') \<in> set (p (b, a))"
    unfolding matches_asD [OF p] using xy by (intro exI [of _ x]) simp
  moreover have "(b'', a'') \<in> set (q (b @ x, y @ a''))"
    unfolding matches_asD [OF q] using xy by (intro exI [of _ y]) simp
  ultimately show "(b'', a'') \<in> set (m_seq p q (b, a))"
    unfolding in_m_seq by blast
qed

lemma matches_as_opt:
  assumes p: "matches_as p R"
  shows "matches_as (m_opt p) (\<lambda>b x a'. x = [] \<or> R b x a')"
  unfolding matches_as_def in_m_opt matches_asD [OF p] by auto

lemma matches_as_lit: "matches_as (m_lit t) (\<lambda>b x a'. same_ignoring_case t x)"
  unfolding matches_as_def in_m_lit by simp

lemma matches_as_plus_class: "matches_as (m_plus_class P) (\<lambda>b x a'. x \<noteq> [] \<and> list_all P x)"
  unfolding matches_as_def in_m_plus_class by simp

lemma matches_as_numeral: "matches_as m_numeral (\<lambda>b x a'. numeral_before x a')"
  unfolding matches_as_def in_m_numeral by simp

lemma matches_as_arabic:
  "matches_as m_arabic (\<lambda>b x a'. is_arabic x \<and> \<not> (a' \<noteq> [] \<and> is_word_char (hd a')))"
  unfolding matches_as_def in_m_arabic by simp

lemmas matches_as_chapter_plain =
  matches_as_seq [OF matches_as_lit matches_as_seq [OF matches_as_plus_class matches_as_numeral]]

lemmas matches_as_chapter_title =
  matches_as_seq [OF matches_as_lit matches_as_seq [OF matches_as_plus_class
    matches_as_seq [OF matches_as_numeral
      matches_as_opt [OF matches_as_seq [OF matches_as_plus_class matches_as_plus_class]]]]]

lemma match_whole:
  assumes p: "matches_as p R" and nl: "CHR 0x0A \<notin> set s"
  shows "(\<exists>b' a'. (b', a') \<in> set (p ([], s)) \<and> (a' = [] \<or> a' = [CHR 0x0A])) \<longleftrightarrow> R [] s []"
proof
  assume "\<exists>b' a'. (b', a') \<in> set (p ([], s)) \<and> (a' = [] \<or> a' = [CHR 0x0A])"
  then obtain x a' where x: "s = x @ a'" "R [] x a'" "a' = [] \<or> a' = [CHR 0x0A]"
    using matches_asD [OF p, of _ _ "[]" s] by auto
  then have "a' = []" using nl by auto
  then show "R [] s []" using x by simp
next
  assume "R [] s []"
  then have "(s, []) \<in> set (p ([], s))"
    unfolding matches_asD [OF p] by simp
  then show "\<exists>b' a'. (b', a') \<in> set (p ([], s)) \<and> (a' = [] \<or> a' = [CHR 0x0A])"
    by blast
qed

lemma separator_not_word: "is_separator_char c \<Longrightarrow> \<not> is_word_char c"
proof -
  have "list_all (\<lambda>c. \<not> is_word_char c)
          [CHR '':'', CHR ''-'', CHR 0x09, CHR 0x0A, CHR 0x0B, CHR 0x0C, CHR 0x0D,
           CHR 0x1C, CHR 0x1D, CHR 0x1E, CHR 0x1F, CHR 0x20, CHR 0x85, CHR 0xA0]"
    by (simp add: is_word_char_def is_numeric_char_def is_digit_def char_tables)
  moreover assume "is_separator_char c"
  ultimately show ?thesis
    unfolding is_separator_char_def is_space_def list_all_iff by auto
qed

lemma numeral_before_end: "numeral_before num [] = is_numeral num"
  by (simp add: numeral_before_def is_numeral_def)

lemma numeral_before_separator:
  "sep \<noteq> [] \<Longrightarrow> list_all is_separator_char sep \<Longrightarrow> numeral_before num (sep @ title_text) = is_numeral num"
  by (cases sep) (simp_all add: numeral_before_def is_numeral_def separator_not_word)

lemma case_variants_chapter:
  "case_variants (CHR ''C'') = ''Cc''"
  "case_variants (CHR ''h'') = ''hH''" "case_variants (CHR ''H'') = ''Hh''"
  "case_variants (CHR ''a'') = ''aA''" "case_variants (CHR ''A'') = ''Aa''"
  "case_variants (CHR ''p'') = ''pP''" "case_variants (CHR ''P'') = ''Pp''"
  "case_variants (CHR ''t'') = ''tT''" "case_variants (CHR ''T'') = ''Tt''"
  "case_variants (CHR ''e'') = ''eE''" "case_variants (CHR ''E'') = ''Ee''"
  "case_variants (CHR ''r'') = ''rR''" "case_variants (CHR ''R'') = ''Rr''"
  by (simp_all add: case_variants_def char_tables)

lemma ic_eq_chapter:
  "ic_eq (CHR ''H'') = ic_eq (CHR ''h'')" "ic_eq (CHR ''A'') = ic_eq (CHR ''a'')"
  "ic_eq (CHR ''P'') = ic_eq (CHR ''p'')" "ic_eq (CHR ''T'') = ic_eq (CHR ''t'')"
  "ic_eq (CHR ''E'') = ic_eq (CHR ''e'')" "ic_eq (CHR ''R'') = ic_eq (CHR ''r'')"
  by (rule ext, auto simp: ic_eq_def case_variants_chapter)+

lemma same_ignoring_case_chapter:
  "same_ignoring_case ''CHAPTER'' kw = same_ignoring_case ''Chapter'' kw"
  by (simp add: same_ignoring_case_def list_all2_Cons1 ic_eq_chapter)

lemma re_match_anchored:
  "re_match (m_seq m_bol (m_seq p m_eol)) s \<longleftrightarrow> whole_line p s"
  by (simp add: re_match_iff in_m_seq in_m_bol in_m_eol whole_line_def)

lemma whole_line_alts: "whole_line (m_alts ps) s \<longleftrightarrow> (\<exists>p\<in>set ps. whole_line p s)"
  unfolding whole_line_def in_m_alts by blast

lemma whole_line_iff:
  "matches_as p R \<Longrightarrow> CHR 0x0A \<notin> set s \<Longrightarrow> whole_line p s \<longleftrightarrow> R [] s []"
  unfolding whole_line_def by (rule match_whole)

lemma chapter_pattern_iff:
  assumes nl: "CHR 0x0A \<notin> set s"
  shows "re_match chapter_pattern s \<longleftrightarrow> chapter_line_spec s"
proof -
  let ?form = "\<lambda>tail. \<exists>kw ws num. s = kw @ ws @ num @ tail \<and> same_ignoring_case ''Chapter'' kw
                 \<and> ws \<noteq> [] \<and> list_all is_space ws \<and> is_numeral num"
  have sep: "(\<lambda>c. c = CHR '':'' \<or> c = CHR ''-'' \<or> is_space c) = is_separator_char"
    by (rule ext) (simp add: is_separator_char_def)
  have plain: "whole_line (m_seq (m_lit t) (m_seq (m_plus_class is_space) m_numeral)) s \<longleftrightarrow>
      (\<exists>kw ws num. s = kw @ ws @ num \<and> same_ignoring_case t kw
         \<and> ws \<noteq> [] \<and> list_all is_space ws \<and> is_numeral num)" for t
    unfolding whole_line_iff [OF matches_as_chapter_plain nl] by (auto simp: numeral_before_end)
  have titled: "whole_line (m_seq (m_lit ''CHAPTER'')
               (m_seq (m_plus_class is_space)
                  (m_seq m_numeral
                     (m_opt (m_seq (m_plus_class (\<lambda>c. c = CHR '':'' \<or> c = CHR ''-'' \<or> is_space c))
                                   (m_plus_class (\<lambda>c. c \<noteq> CHR 0x0A))))))) s
      \<longleftrightarrow> (\<exists>tail. ?form tail \<and> (tail = [] \<or> has_title tail))"
    (is "?L \<longleftrightarrow> ?R")
  proof
    assume ?L
    then obtain kw ws num tail where d: "s = kw @ ws @ num @ tail" "same_ignoring_case ''CHAPTER'' kw"
        "ws \<noteq> []" "list_all is_space ws" "numeral_before num tail"
        "tail = [] \<or> (\<exists>sp tt. tail = sp @ tt \<and> sp \<noteq> [] \<and> list_all is_separator_char sp \<and> tt \<noteq> [])"
      unfolding whole_line_iff [OF matches_as_chapter_title nl] sep by auto blast
    have "is_numeral num"
      using d(5,6) by (auto simp: numeral_before_end numeral_before_separator)
    moreover have "tail = [] \<or> has_title tail"
      using d(6) by (auto simp: has_title_iff)
    ultimately show ?R
      using d by (auto simp: same_ignoring_case_chapter)
  next
    assume ?R
    then obtain kw ws num tail where d: "s = kw @ ws @ num @ tail" "same_ignoring_case ''Chapter'' kw"
        "ws \<noteq> []" "list_all is_space ws" "is_numeral num" "tail = [] \<or> has_title tail"
      by blast
    from d(6) have t: "tail = [] \<or> (\<exists>sp tt. tail = sp @ tt \<and> (sp \<noteq> [] \<and> list_all is_separator_char sp)
          \<and> tt \<noteq> [] \<and> list_all (\<lambda>c. c \<noteq> CHR 0x0A) tt)"
    proof
      assume "tail = []" then show ?thesis by simp
    next
      assume "has_title tail"
      then obtain sp tt where st: "tail = sp @ tt" "sp \<noteq> []" "list_all is_separator_char sp" "tt \<noteq> []"
        by (auto simp: has_title_iff)
      moreover have "list_all (\<lambda>c. c \<noteq> CHR 0x0A) tt"
        using nl d(1) st(1) by (auto simp: list_all_iff)
      ultimately show ?thesis by blast
    qed
    have nb: "numeral_before num (tail @ [])"
      using d(5) t by (auto simp: numeral_before_end numeral_before_separator)
    show ?L
      unfolding whole_line_iff [OF matches_as_chapter_title nl] sep
      apply (rule exI [of _ kw], rule exI [of _ "ws @ num @ tail"])
      apply (simp add: d same_ignoring_case_chapter)
      apply (rule exI [of _ ws], rule exI [of _ "num @ tail"])
      apply (simp add: d)
      apply (rule exI [of _ num], rule exI [of _ tail])
      using nb t apply simp
      done
  qed
  have roman: "whole_line (m_plus_class is_roman_letter) s \<longleftrightarrow> roman_token s"
    unfolding whole_line_iff [OF matches_as_plus_class nl] by (simp add: roman_token_def)
  have arabic: "whole_line m_arabic s \<longleftrightarrow> is_arabic s"
    unfolding whole_line_iff [OF matches_as_arabic nl] by simp
  define form where "form = ?form"
  have "re_match chapter_pattern s \<longleftrightarrow>
      form [] \<or> (\<exists>tail. form tail \<and> (tail = [] \<or> has_title tail)) \<or> roman_token s \<or> is_arabic s"
    unfolding chapter_pattern_def re_match_anchored whole_line_alts form_def
    by (simp add: plain titled roman arabic same_ignoring_case_chapter del: m_lit.simps)
  also have "\<dots> \<longleftrightarrow> (\<exists>tail. form tail \<and> (tail = [] \<or> has_title tail)) \<or> is_arabic s \<or> roman_token s"
    by blast
  also have "(\<exists>tail. form tail \<and> (tail = [] \<or> has_title tail)) \<longleftrightarrow> chapter_heading_form s"
    unfolding chapter_heading_form_iff form_def by blast
  also have "chapter_heading_form s \<or> is_arabic s \<or> roman_token s \<longleftrightarrow> chapter_line_spec s"
    by (simp add: chapter_line_spec_def)
  finally show ?thesis .
qed

lemma ic_eq_refl: "ic_eq c c"
  by (simp add: ic_eq_def case_variants_def)

lemma same_ignoring_case_refl: "same_ignoring_case t t"
  by (simp add: same_ignoring_case_def list_all2_same ic_eq_refl)

lemma same_ignoring_case_length: "same_ignoring_case t x \<Longrightarrow> length x = length t"
  by (simp add: same_ignoring_case_def list_all2_lengthD)













lemma chapter_line_spec_start:
  "chapter_line_spec s \<Longrightarrow> s \<noteq> [] \<and> (is_digit (hd s) \<or> is_roman_letter (hd s))"
proof -
  assume "chapter_line_spec s"
  then consider "chapter_heading_form s" | "is_arabic s" | "roman_token s"
    by (auto simp: chapter_line_spec_def)
  then show ?thesis
  proof cases
    case 1
    then obtain kw r where "s = kw @ r" "same_ignoring_case ''Chapter'' kw"
      unfolding chapter_heading_form_iff by blast
    then obtain c cs where "s = c # cs" "ic_eq (CHR ''C'') c"
      by (auto simp: same_ignoring_case_def list_all2_Cons1)
    then show ?thesis
      by (auto simp: ic_eq_def case_variants_chapter is_roman_letter_iff)
  next
    case 2
    then show ?thesis by (cases s) (auto simp: is_arabic_def)
  next
    case 3
    then show ?thesis by (cases s) (auto simp: roman_token_def)
  qed
qed






subsection \<open>Strings\<close>

lemma is_prefix_iff: "is_prefix xs s \<longleftrightarrow> (\<exists>post. s = xs @ post)"
  by (induction xs s rule: is_prefix.induct) auto

lemma py_in_iff: "py_in sub s \<longleftrightarrow> (\<exists>pre post. s = pre @ sub @ post)"
proof (induction s)
  case Nil
  show ?case by auto
next
  case (Cons c cs)
  show ?case
  proof
    assume "py_in sub (c # cs)"
    then consider "is_prefix sub (c # cs)" | "py_in sub cs" by auto
    then show "\<exists>pre post. c # cs = pre @ sub @ post"
    proof cases
      case 1
      then obtain post where "c # cs = sub @ post" by (auto simp: is_prefix_iff)
      then have "c # cs = [] @ sub @ post" by simp
      then show ?thesis by blast
    next
      case 2
      then obtain pre post where "cs = pre @ sub @ post" using Cons by blast
      then have "c # cs = (c # pre) @ sub @ post" by simp
      then show ?thesis by blast
    qed
  next
    assume "\<exists>pre post. c # cs = pre @ sub @ post"
    then obtain pre post where eq: "c # cs = pre @ sub @ post" by blast
    show "py_in sub (c # cs)"
    proof (cases pre)
      case Nil
      then have "is_prefix sub (c # cs)" using eq by (auto simp: is_prefix_iff)
      then show ?thesis by simp
    next
      case (Cons d pre')
      then have "cs = pre' @ sub @ post" using eq by simp
      then have "py_in sub cs" using Cons.IH by blast
      then show ?thesis by simp
    qed
  qed
qed

lemma py_splitlines_Nil: "py_splitlines [] = []"
  by (simp add: py_splitlines.simps)

lemma py_splitlines_single:
  "s \<noteq> [] \<Longrightarrow> list_all (\<lambda>c. \<not> is_linebreak c) s \<Longrightarrow> py_splitlines s = [s]"
proof -
  assume ne: "s \<noteq> []" and all: "list_all (\<lambda>c. \<not> is_linebreak c) s"
  have td: "takeWhile (\<lambda>c. \<not> is_linebreak c) s = s" "dropWhile (\<lambda>c. \<not> is_linebreak c) s = []"
    using all by (simp_all add: list_all_iff)
  show ?thesis
    using ne by (subst py_splitlines.simps) (simp add: td)
qed

lemma py_splitlines_linefeed:
  assumes "list_all (\<lambda>c. \<not> is_linebreak c) a"
  shows "py_splitlines (a @ CHR 0x0A # b) = a # py_splitlines b"
proof -
  have lb: "is_linebreak (CHR 0x0A)" by (simp add: is_linebreak_def)
  have td: "takeWhile (\<lambda>c. \<not> is_linebreak c) (a @ CHR 0x0A # b) = a"
       "dropWhile (\<lambda>c. \<not> is_linebreak c) (a @ CHR 0x0A # b) = CHR 0x0A # b"
    using assms lb by (simp_all add: list_all_iff takeWhile_append2 dropWhile_append2)
  show ?thesis
    by (subst py_splitlines.simps) (simp add: td split: list.splits)
qed

subsection \<open>The paragraph segmenter\<close>

lemma paragraph_step_index:
  "(i = 0 \<longrightarrow> cur = []) \<Longrightarrow> paragraph_step (i, line) (ps, cur) = paragraph_step' line (ps, cur)"
  by (auto simp: paragraph_step_def paragraph_step'_def Let_def)

lemma paragraph_step'_cases:
  "paragraph_step' line (ps, cur) = (ps', cur') \<Longrightarrow> (cur' = [] \<longrightarrow> cur = [])"
  by (auto simp: paragraph_step'_def Let_def split: if_splits)

lemma paragraph_fold_index:
  "(n = 0 \<longrightarrow> cur = []) \<Longrightarrow>
     fold paragraph_step (enumerate n lines) (ps, cur) = fold paragraph_step' lines (ps, cur)"
proof (induction lines arbitrary: n ps cur)
  case Nil
  show ?case by simp
next
  case (Cons line lines)
  obtain ps' cur' where st: "paragraph_step' line (ps, cur) = (ps', cur')"
    by (cases "paragraph_step' line (ps, cur)")
  have "fold paragraph_step (enumerate n (line # lines)) (ps, cur)
        = fold paragraph_step (enumerate (Suc n) lines) (ps', cur')"
    using Cons.prems st by (simp add: paragraph_step_index)
  also have "\<dots> = fold paragraph_step' lines (ps', cur')"
    by (rule Cons.IH) simp
  finally show ?case using st by simp
qed

lemma py_join_snoc: "xs \<noteq> [] \<Longrightarrow> py_join sep (xs @ [x]) = py_join sep xs @ sep @ x"
  by (induction sep xs rule: py_join.induct) simp_all

lemma py_join_last:
  "xs \<noteq> [] \<Longrightarrow> last xs \<noteq> [] \<Longrightarrow> py_join sep xs \<noteq> [] \<and> last (py_join sep xs) = last (last xs)"
  by (induction sep xs rule: py_join.induct) simp_all

lemma endswith_py_join:
  "xs \<noteq> [] \<Longrightarrow> last xs \<noteq> [] \<Longrightarrow> endswith_any (py_join sep xs) cs = endswith_any (last xs) cs"
  using py_join_last [of xs sep] by (simp add: endswith_any_def)

lemma paragraph_fold_spec:
  "\<forall>x\<in>set cur. x \<noteq> [] \<Longrightarrow>
     finish_paragraphs (fold paragraph_step' lines (ps, cur))
       = ps @ (if cur = [] then paragraphs_spec lines
               else paragraphs_from (py_join '' '' cur) (filter (\<lambda>l. l \<noteq> []) (map py_strip lines)))"
proof (induction lines arbitrary: ps cur)
  case Nil
  show ?case by (simp add: finish_paragraphs_def paragraphs_spec_def)
next
  case (Cons line lines)
  show ?case
  proof (cases "py_strip line = []")
    case True
    then show ?thesis
      using Cons.IH [OF Cons.prems, of ps] by (simp add: paragraph_step'_def paragraphs_spec_def)
  next
    case False
    note ne = this
    show ?thesis
    proof (cases "cur = []")
      case True
      have "finish_paragraphs (fold paragraph_step' (line # lines) (ps, cur))
            = finish_paragraphs (fold paragraph_step' lines (ps, [py_strip line]))"
        using True ne by (simp add: paragraph_step'_def)
      also have "\<dots> = ps @ paragraphs_from (py_strip line) (filter (\<lambda>l. l \<noteq> []) (map py_strip lines))"
        using Cons.IH [of "[py_strip line]" ps] ne by simp
      finally show ?thesis using True ne by (simp add: paragraphs_spec_def)
    next
      case False
      then have last: "last cur \<noteq> []" using Cons.prems by simp
      show ?thesis
      proof (cases "is_upper_char (hd (py_strip line)) \<and> endswith_any (last cur) ''.''")
        case True
        have "finish_paragraphs (fold paragraph_step' (line # lines) (ps, cur))
              = finish_paragraphs (fold paragraph_step' lines (ps @ [py_join '' '' cur], [py_strip line]))"
          using True False ne by (simp add: paragraph_step'_def)
        also have "\<dots> = (ps @ [py_join '' '' cur])
              @ paragraphs_from (py_strip line) (filter (\<lambda>l. l \<noteq> []) (map py_strip lines))"
          using Cons.IH [of "[py_strip line]" "ps @ [py_join '' '' cur]"] ne by simp
        finally show ?thesis
          using True False ne last by (simp add: endswith_py_join)
      next
        case nostart: False
        have "finish_paragraphs (fold paragraph_step' (line # lines) (ps, cur))
              = finish_paragraphs (fold paragraph_step' lines (ps, cur @ [py_strip line]))"
          using nostart False ne by (auto simp: paragraph_step'_def)
        also have "\<dots> = ps @ paragraphs_from (py_join '' '' (cur @ [py_strip line]))
                                  (filter (\<lambda>l. l \<noteq> []) (map py_strip lines))"
          using Cons.IH [of "cur @ [py_strip line]" ps] Cons.prems ne by simp
        finally show ?thesis
          using nostart False ne last by (auto simp: endswith_py_join py_join_snoc)
      qed
    qed
  qed
qed

lemma detect_paragraphs_spec: "detect_paragraphs lines = paragraphs_spec lines"
proof -
  have "detect_paragraphs lines = finish_paragraphs (fold paragraph_step (enumerate 0 lines) ([], []))"
    by (simp add: detect_paragraphs_def finish_paragraphs_def split: prod.splits)
  also have "\<dots> = finish_paragraphs (fold paragraph_step' lines ([], []))"
    by (simp add: paragraph_fold_index)
  also have "\<dots> = paragraphs_spec lines"
    using paragraph_fold_spec [of "[]" lines "[]"] by simp
  finally show ?thesis .
qed

lemma paragraphs_from_nonempty:
  "current \<noteq> [] \<Longrightarrow> \<forall>l\<in>set ls. l \<noteq> [] \<Longrightarrow> \<forall>p\<in>set (paragraphs_from current ls). p \<noteq> []"
  by (induction current ls rule: paragraphs_from.induct) auto

lemma paragraphs_spec_nonempty: "[] \<notin> set (paragraphs_spec lines)"
proof (cases "filter (\<lambda>l. l \<noteq> []) (map py_strip lines)")
  case Nil
  then show ?thesis by (simp add: paragraphs_spec_def)
next
  case (Cons l ls)
  have "\<forall>x\<in>set (filter (\<lambda>l. l \<noteq> []) (map py_strip lines)). x \<noteq> []"
    by simp
  then have "l \<noteq> []" "\<forall>x\<in>set ls. x \<noteq> []"
    unfolding Cons by simp_all
  then show ?thesis
    using paragraphs_from_nonempty [of l ls] Cons by (auto simp: paragraphs_spec_def)
qed

lemma paragraphs_from_not_Nil: "paragraphs_from current ls \<noteq> []"
  by (induction current ls rule: paragraphs_from.induct) auto

lemma py_join_Cons: "xs \<noteq> [] \<Longrightarrow> py_join sep (x # xs) = x @ sep @ py_join sep xs"
  by (cases xs) simp_all

lemma paragraphs_from_join:
  "py_join '' '' (paragraphs_from current ls) = py_join '' '' (current # ls)"
proof (induction current ls rule: paragraphs_from.induct)
  case (1 current)
  show ?case by simp
next
  case (2 current l ls)
  show ?case
  proof (cases "is_upper_char (hd l) \<and> endswith_any current ''.''")
    case True
    then show ?thesis
      using 2 by (simp add: py_join_Cons paragraphs_from_not_Nil)
  next
    case False
    then show ?thesis
      using 2 by (cases ls) auto
  qed
qed

lemma paragraphs_spec_join:
  "py_join '' '' (paragraphs_spec lines) = py_join '' '' (filter (\<lambda>l. l \<noteq> []) (map py_strip lines))"
  by (simp add: paragraphs_spec_def paragraphs_from_join split: list.splits)


text \<open>
  C9. \<^verbatim>\<open>_detect_paragraphs\<close> groups the lines as described: blank lines are skipped,
  the first line that is not blank starts the first paragraph, a later line starts a new
  paragraph exactly when it begins with an upper-case letter and the paragraph accumulated
  so far ends with a period, and every other line is appended after a blank. No
  paragraph of the result is empty, and the paragraphs hold the trimmed lines in their
  order: joined by blanks they are the trimmed lines joined by blanks.
\<close>

theorem detect_paragraphs_groups_lines:
  "detect_paragraphs lines = paragraphs_spec lines
   \<and> [] \<notin> set (detect_paragraphs lines)
   \<and> py_join '' '' (detect_paragraphs lines)
       = py_join '' '' (filter (\<lambda>l. l \<noteq> []) (map py_strip lines))"
  by (simp add: detect_paragraphs_spec paragraphs_spec_nonempty paragraphs_spec_join)

theorem detect_paragraphs_groups_lines_witness:
  "detect_paragraphs [''It was dark.'', '' and cold.'', [], ''The wind'', ''howled.'', ''Next day.'']
     = [''It was dark. and cold.'', ''The wind howled.'', ''Next day.'']"
proof -
  have "paragraphs_spec [''It was dark.'', '' and cold.'', [], ''The wind'', ''howled.'', ''Next day.'']
        = [''It was dark. and cold.'', ''The wind howled.'', ''Next day.'']"
    by (simp add: paragraphs_spec_def py_strip_def is_space_def is_upper_char_def char_tables
          endswith_any_def)
  then show ?thesis
    using detect_paragraphs_groups_lines
      [of "[''It was dark.'', '' and cold.'', [], ''The wind'', ''howled.'', ''Next day.'']"]
    by (simp only:)
qed

subsection \<open>The content renderer\<close>

lemma fold_add_paragraph:
  "fold (add_paragraph name) ps html
     = html @ concat (map (\<lambda>p. ''<p>'' @ p @ ''</p>'') (filter (paragraph_kept name) ps))"
  by (induction ps arbitrary: html) (simp_all add: add_paragraph_def paragraph_kept_def py_in_iff)

lemma chapter_content_eq:
  "chapter_content text name
     = ''<h1>'' @ name @ ''</h1>''
       @ concat (map (\<lambda>p. ''<p>'' @ p @ ''</p>'')
                     (filter (paragraph_kept name) (detect_paragraphs (py_splitlines text))))"
  by (simp add: chapter_content_def fold_add_paragraph Let_def)

lemma paragraphs_of_one_word:
  "detect_paragraphs (py_splitlines ''Intro'') = [''Intro'']"
  "detect_paragraphs (py_splitlines ''Storm'') = [''Storm'']"
  by (simp_all add: py_splitlines_single is_linebreak_def detect_paragraphs_spec paragraphs_spec_def
        py_strip_def is_space_def)

text \<open>
  C8 (amended). For every rendered chapter the content unit carries the chapter title, and
  its content is one heading element with the title followed by the chapter's paragraphs
  in order, without the paragraphs whose text occurs in the title and without blank
  paragraphs. So a paragraph equal to the title is never rendered as a body paragraph, and
  no rendered paragraph is empty.
\<close>

theorem add_chapters_to_epub_content:
  assumes "i < length chapters" and "chapters ! i = (chapter_text, chapter_name)"
  shows "title (add_chapters_to_epub chapters ! i) = chapter_name
         \<and> content (add_chapters_to_epub chapters ! i)
             = ''<h1>'' @ chapter_name @ ''</h1>''
               @ concat (map (\<lambda>p. ''<p>'' @ p @ ''</p>'') (kept_paragraphs chapter_text chapter_name))
         \<and> chapter_name \<notin> set (kept_paragraphs chapter_text chapter_name)
         \<and> [] \<notin> set (kept_paragraphs chapter_text chapter_name)"
proof -
  have "add_chapters_to_epub chapters ! i
        = \<lparr>title = chapter_name,
           file_name = ''chapter_'' @ str_int (int (1 + i)) @ ''.xhtml'',
           lang = ''en'',
           content = chapter_content chapter_text chapter_name\<rparr>"
    using assms by (simp add: add_chapters_to_epub_def nth_enumerate_eq)
  moreover have "chapter_name \<notin> set (kept_paragraphs chapter_text chapter_name)"
  proof -
    have "chapter_name = [] @ chapter_name @ []" by simp
    then have "\<not> paragraph_kept chapter_name chapter_name"
      unfolding paragraph_kept_def by blast
    then show ?thesis by (simp add: kept_paragraphs_def)
  qed
  moreover have "[] \<notin> set (kept_paragraphs chapter_text chapter_name)"
    by (simp add: kept_paragraphs_def paragraph_kept_def py_strip_def)
  ultimately show ?thesis
    by (simp add: chapter_content_eq kept_paragraphs_def)
qed

theorem add_chapters_to_epub_content_witness:
  "title (add_chapters_to_epub [(''Chapter 1'', ''Chapter 1'')] ! 0) = ''Chapter 1''
   \<and> ''Chapter 1'' \<notin> set (kept_paragraphs ''Chapter 1'' ''Chapter 1'')"
proof -
  have "(0::nat) < length [(''Chapter 1'', ''Chapter 1'')]" by simp
  moreover have "[(''Chapter 1'', ''Chapter 1'')] ! 0 = (''Chapter 1'', ''Chapter 1'')" by simp
  ultimately show ?thesis
    using add_chapters_to_epub_content [of 0 "[(''Chapter 1'', ''Chapter 1'')]" "''Chapter 1''" "''Chapter 1''"]
    by blast
qed

text \<open>
  C8 as stated fails for a chapter whose title contains a body paragraph: the paragraph
  \<^verbatim>\<open>Intro\<close> is neither the title nor blank, and yet the content is the heading alone.
\<close>

theorem add_chapters_to_epub_drops_contained_paragraph:
  "detect_paragraphs (py_splitlines ''Intro'') = [''Intro'']
   \<and> ''Intro'' \<noteq> ''Chapter 1 Intro''
   \<and> py_strip ''Intro'' \<noteq> []
   \<and> map content (add_chapters_to_epub [(''Intro'', ''Chapter 1 Intro'')]) = [''<h1>Chapter 1 Intro</h1>'']"
  by (simp add: paragraphs_of_one_word add_chapters_to_epub_def chapter_content_def add_paragraph_def
        py_strip_def is_space_def)

text \<open>
  C10. \<^verbatim>\<open>_add_chapters_to_epub\<close> renders exactly the paragraphs whose text does not occur
  as a contiguous part of the chapter title and that are not blank: the test is one of
  containment, not of equality. So the one-word paragraph \<^verbatim>\<open>Storm\<close> of a chapter titled
  \<^verbatim>\<open>The Storm Breaks\<close> differs from the title and is dropped all the same.
\<close>

theorem chapter_content_omits_title_substrings:
  "chapter_content chapter_text chapter_name
     = ''<h1>'' @ chapter_name @ ''</h1>''
       @ concat (map (\<lambda>p. ''<p>'' @ p @ ''</p>'')
           (filter (\<lambda>p. \<not> (\<exists>pre post. chapter_name = pre @ p @ post) \<and> py_strip p \<noteq> [])
                   (detect_paragraphs (py_splitlines chapter_text))))
   \<and> detect_paragraphs (py_splitlines ''Storm'') = [''Storm'']
   \<and> ''Storm'' \<noteq> ''The Storm Breaks''
   \<and> chapter_content ''Storm'' ''The Storm Breaks'' = ''<h1>The Storm Breaks</h1>''"
proof -
  have "paragraph_kept chapter_name = (\<lambda>p. \<not> (\<exists>pre post. chapter_name = pre @ p @ post) \<and> py_strip p \<noteq> [])"
    by (rule ext) (simp add: paragraph_kept_def)
  moreover have "chapter_content ''Storm'' ''The Storm Breaks'' = ''<h1>The Storm Breaks</h1>''"
    by (simp add: paragraphs_of_one_word chapter_content_def add_paragraph_def)
  ultimately show ?thesis
    using chapter_content_eq [of chapter_text chapter_name] by (simp add: paragraphs_of_one_word)
qed

subsection \<open>The chapter boundary detector\<close>

lemma prologue_epilogue_pattern_iff:
  assumes nl: "CHR 0x0A \<notin> set s"
  shows "re_match prologue_epilogue_pattern s \<longleftrightarrow> front_matter_spec s"
proof -
  have "whole_line (m_lit t) s \<longleftrightarrow> same_ignoring_case t s" for t
    by (rule whole_line_iff [OF matches_as_lit nl])
  then show ?thesis
    unfolding prologue_epilogue_pattern_def re_match_anchored whole_line_alts front_matter_spec_def
      front_matter_words_def list_ex_iff
    by (simp del: m_lit.simps)
qed

lemma front_matter_spec_length:
  "front_matter_spec s \<Longrightarrow> length s \<in> {7, 8, 9, 10, 12}"
  unfolding front_matter_spec_def front_matter_words_def list_ex_iff
  by (auto dest: same_ignoring_case_length)

lemma tag_pattern_no_tag: "CHR ''<'' \<noteq> c \<Longrightarrow> tag_pattern (b, c # cs) = []"
  by (simp add: tag_pattern_def m_seq_def m_class_def)

lemma re_sub_empty_no_tag:
  "CHR ''<'' \<notin> set s \<Longrightarrow> re_sub_empty tag_pattern (b, s) = s"
  by (induction s arbitrary: b) (simp_all add: tag_pattern_no_tag)

lemma strip_tags_id: "CHR ''<'' \<notin> set s \<Longrightarrow> strip_tags s = s"
  by (simp add: strip_tags_def re_sub_empty_no_tag)

lemma digit_cases:
  assumes "d < (10::nat)"
  obtains "d = 0" | "d = 1" | "d = 2" | "d = 3" | "d = 4" | "d = 5" | "d = 6" | "d = 7"
    | "d = 8" | "d = 9"
  using assms by atomize_elim arith

lemma digit_char_is_digit: "d < 10 \<Longrightarrow> is_digit (digit_char d)"
  by (erule digit_cases) (simp_all add: digit_char_def is_digit_def ascii_digits_def)

lemma digit_value_digit_char: "d < 10 \<Longrightarrow> digit_value (digit_char d) = int d"
  by (erule digit_cases) (simp_all add: digit_value_def digit_char_def ascii_digits_def)

lemma str_nat_digits: "str_nat n \<noteq> [] \<and> list_all is_digit (str_nat n)"
proof (induction n rule: str_nat.induct)
  case (1 n)
  show ?case
  proof (cases "n < 10")
    case True
    then show ?thesis by (subst str_nat.simps, subst str_nat.simps) (simp add: digit_char_is_digit)
  next
    case False
    then show ?thesis
      using 1 by (subst str_nat.simps, subst str_nat.simps) (simp add: digit_char_is_digit)
  qed
qed

lemma str_nat_value: "fold (\<lambda>c acc. 10 * acc + digit_value c) (str_nat n) 0 = int n"
proof (induction n rule: str_nat.induct)
  case (1 n)
  show ?case
  proof (cases "n < 10")
    case True
    then show ?thesis by (subst str_nat.simps) (simp add: digit_value_digit_char)
  next
    case False
    then have "fold (\<lambda>c acc. 10 * acc + digit_value c) (str_nat n) 0
               = 10 * int (n div 10) + int (n mod 10)"
      using 1 by (subst str_nat.simps) (simp add: digit_value_digit_char)
    then show ?thesis by (simp add: zdiv_int zmod_int)
  qed
qed

lemma py_int_str_nat: "py_int (str_nat n) = Inr (int n)"
  using str_nat_digits [of n] by (simp add: py_int_def str_nat_value)

lemma digit_is_numeric: "is_digit c \<Longrightarrow> is_numeric_char c"
  by (simp add: is_numeric_char_def)

lemma out_of_sequence_int:
  "out_of_sequence (py_str (PyInt i)) n = Inr (0 \<le> i \<and> i \<noteq> n)"
proof (cases "i < 0")
  case True
  have "\<not> is_numeric_char (CHR ''-'')"
    by (simp add: is_numeric_char_def is_digit_def ascii_digits_def)
  then show ?thesis
    using True by (simp add: out_of_sequence_def str_int_def isnumeric_def)
next
  case False
  have "isnumeric (str_nat (nat i))"
    using str_nat_digits [of "nat i"] by (auto simp: isnumeric_def list_all_iff digit_is_numeric)
  then show ?thesis
    using False by (simp add: out_of_sequence_def str_int_def py_int_str_nat)
qed

lemma roman_letter_not_numeric: "is_roman_letter c \<Longrightarrow> \<not> is_numeric_char c"
  unfolding is_roman_letter_iff
  by (auto simp: is_numeric_char_def is_digit_def ascii_digits_def)

lemma numeric_chapter_line:
  assumes "isnumeric s" and "re_match chapter_pattern s"
  shows "s \<noteq> [] \<and> list_all is_digit s"
proof -
  have num: "s \<noteq> []" "\<forall>c\<in>set s. is_numeric_char c"
    using assms(1) by (simp_all add: isnumeric_def list_all_iff)
  have "\<not> is_numeric_char (CHR 0x0A)"
    by (simp add: is_numeric_char_def is_digit_def ascii_digits_def)
  then have nl: "CHR 0x0A \<notin> set s" using num by blast
  then have spec: "chapter_line_spec s" using assms(2) by (simp add: chapter_pattern_iff)
  have hd: "is_numeric_char (hd s)" using num by simp
  have "\<not> chapter_heading_form s"
  proof
    assume "chapter_heading_form s"
    then obtain kw r where "s = kw @ r" "same_ignoring_case ''Chapter'' kw"
      unfolding chapter_heading_form_iff by blast
    then obtain c cs where "s = c # cs" "ic_eq (CHR ''C'') c"
      by (auto simp: same_ignoring_case_def list_all2_Cons1)
    then have "is_roman_letter (hd s)"
      by (auto simp: ic_eq_def case_variants_chapter is_roman_letter_iff)
    then show False using hd roman_letter_not_numeric by blast
  qed
  moreover have "\<not> roman_token s"
  proof
    assume "roman_token s"
    then have "is_roman_letter (hd s)" by (cases s) (simp_all add: roman_token_def)
    then show False using hd roman_letter_not_numeric by blast
  qed
  ultimately have "is_arabic s" using spec by (simp add: chapter_line_spec_def)
  then show ?thesis using num by (simp add: is_arabic_def)
qed

lemma out_of_sequence_total:
  assumes "re_match chapter_pattern clean"
  shows "\<exists>b. out_of_sequence (py_str (convert_line_if_roman clean)) n = Inr b"
proof (cases "roman_token (py_strip clean)")
  case True
  then show ?thesis by (simp add: convert_line_if_roman_eq out_of_sequence_int del: py_str.simps)
next
  case False
  show ?thesis
  proof (cases "isnumeric clean")
    case True
    then have "clean \<noteq> [] \<and> list_all is_digit clean"
      using assms by (rule numeric_chapter_line)
    then show ?thesis
      using False True by (auto simp: convert_line_if_roman_eq out_of_sequence_def py_int_def)
  next
    case notnum: False
    then show ?thesis
      using False by (auto simp: convert_line_if_roman_eq out_of_sequence_def)
  qed
qed

lemma scan_step_cases:
  obtains
    (skip) "scan_step lines (i, line) st = Inr st"
  | (reject) c where "scan_step lines (i, line) st = Inr (st\<lparr>consecutive_chapter_index := c, prev_is_chapter := False\<rparr>)"
  | (retract) c where "start_indices st \<noteq> []"
      "scan_step lines (i, line) st =
         Inr (st\<lparr>consecutive_chapter_index := c,
                 start_indices := butlast (start_indices st),
                 original_chapter_names := butlast (original_chapter_names st),
                 chapter_number := chapter_number st - 1,
                 prev_is_chapter := False\<rparr>)"
  | (accept) c name where
      "scan_step lines (i, line) st =
         Inr (st\<lparr>consecutive_chapter_index := c,
                 chapter_number := chapter_number st + 1,
                 prev_is_chapter := True,
                 start_indices := start_indices st @ [i],
                 original_chapter_names := original_chapter_names st @ [name]\<rparr>)"
  | (front) name where
      "scan_step lines (i, line) st =
         Inr (st\<lparr>prev_is_chapter := True,
                 start_indices := start_indices st @ [i],
                 original_chapter_names := original_chapter_names st @ [name]\<rparr>)"
  | (other) "scan_step lines (i, line) st = Inr (st\<lparr>prev_is_chapter := False\<rparr>)"
proof -
  let ?clean = "strip_tags (py_strip line)"
  show ?thesis
  proof (cases "?clean = []")
    case True
    then have "scan_step lines (i, line) st = Inr st" by (simp add: scan_step_def)
    then show ?thesis by (rule skip)
  next
    case ne: False
    show ?thesis
    proof (cases "re_match chapter_pattern ?clean")
      case True
      let ?c = "if prev_is_chapter st then consecutive_chapter_index st + 1 else 0"
      obtain b where b: "out_of_sequence (py_str (convert_line_if_roman ?clean)) (chapter_number st) = Inr b"
        using out_of_sequence_total [OF True] by blast
      show ?thesis
      proof (cases "b \<or> prev_is_chapter st")
        case rej: True
        show ?thesis
        proof (cases "?c = 1 \<and> start_indices st \<noteq> []")
          case True
          then have "scan_step lines (i, line) st =
             Inr (st\<lparr>consecutive_chapter_index := ?c,
                 start_indices := butlast (start_indices st),
                 original_chapter_names := butlast (original_chapter_names st),
                 chapter_number := chapter_number st - 1,
                 prev_is_chapter := False\<rparr>)"
            using ne \<open>re_match chapter_pattern ?clean\<close> b rej
            by (simp add: scan_step_def Let_def)
          with True show ?thesis using retract by blast
        next
          case False
          then have "scan_step lines (i, line) st =
             Inr (st\<lparr>consecutive_chapter_index := ?c, prev_is_chapter := False\<rparr>)"
            using ne \<open>re_match chapter_pattern ?clean\<close> b rej
            by (auto simp: scan_step_def Let_def)
          then show ?thesis by (rule reject)
        qed
      next
        case False
        then have "scan_step lines (i, line) st =
         Inr (st\<lparr>consecutive_chapter_index := ?c,
                 chapter_number := chapter_number st + 1,
                 prev_is_chapter := True,
                 start_indices := start_indices st @ [i],
                 original_chapter_names := original_chapter_names st @
                   [with_subtitle ?clean (py_slice lines (i + 1) (min (i + 3) (length lines)))]\<rparr>)"
          using ne True b by (simp add: scan_step_def Let_def)
        then show ?thesis by (rule accept)
      qed
    next
      case nochap: False
      show ?thesis
      proof (cases "re_match prologue_epilogue_pattern ?clean")
        case True
        show ?thesis
        proof (cases "py_upper ?clean = ''EPILOGUE'' \<and> length (start_indices st) = 0")
          case True
          then have "scan_step lines (i, line) st = Inr st"
            using ne nochap \<open>re_match prologue_epilogue_pattern ?clean\<close>
            by (simp add: scan_step_def Let_def)
          then show ?thesis by (rule skip)
        next
          case False
          then have "scan_step lines (i, line) st =
             Inr (st\<lparr>prev_is_chapter := True,
                 start_indices := start_indices st @ [i],
                 original_chapter_names := original_chapter_names st @ [line]\<rparr>)"
            using ne nochap True by (simp add: scan_step_def Let_def)
          then show ?thesis by (rule front)
        qed
      next
        case False
        then have "scan_step lines (i, line) st = Inr (st\<lparr>prev_is_chapter := False\<rparr>)"
          using ne nochap by (simp add: scan_step_def Let_def)
        then show ?thesis by (rule other)
      qed
    qed
  qed
qed

lemma sorted_wrt_butlast: "sorted_wrt P xs \<Longrightarrow> sorted_wrt P (butlast xs)"
  by (induction xs) (auto dest: in_set_butlastD)

lemma scan_step_inv:
  assumes "scan_inv i st"
  shows "\<exists>st'. scan_step lines (i, line) st = Inr st' \<and> scan_inv (Suc i) st'"
proof (cases rule: scan_step_cases [of lines i line st])
  case skip
  then show ?thesis using assms by (auto simp: scan_inv_def)
next
  case (reject c)
  then show ?thesis using assms by (auto simp: scan_inv_def)
next
  case (retract c)
  then show ?thesis
    using assms by (auto simp: scan_inv_def sorted_wrt_butlast dest!: in_set_butlastD)
next
  case (accept c name)
  then show ?thesis using assms by (auto simp: scan_inv_def sorted_wrt_append)
next
  case (front name)
  then show ?thesis using assms by (auto simp: scan_inv_def sorted_wrt_append)
next
  case other
  then show ?thesis using assms by (auto simp: scan_inv_def)
qed

lemma scan_loop_inv:
  "scan_inv n st \<Longrightarrow>
     \<exists>st'. scan_loop lines (enumerate n xs) st = Inr st' \<and> scan_inv (n + length xs) st'"
proof (induction xs arbitrary: n st)
  case Nil
  then show ?case by simp
next
  case (Cons x xs)
  obtain st1 where st1: "scan_step lines (n, x) st = Inr st1" "scan_inv (Suc n) st1"
    using scan_step_inv [OF Cons.prems] by blast
  obtain st' where "scan_loop lines (enumerate (Suc n) xs) st1 = Inr st'"
      "scan_inv (Suc n + length xs) st'"
    using Cons.IH [OF st1(2)] by blast
  then show ?case using st1 by simp
qed

lemma scan_lines_inv: "\<exists>st. scan_lines lines = Inr st \<and> scan_inv (length lines) st"
proof -
  have "scan_inv 0 scan_init" by (simp add: scan_inv_def scan_init_def)
  then show ?thesis
    using scan_loop_inv [of 0 scan_init lines lines] by (simp add: scan_lines_def)
qed

lemma slices_partition:
  "sorted idx \<Longrightarrow> idx \<noteq> [] \<Longrightarrow>
     take (hd idx) xs @ concat (map (chapter_lines xs idx) [0..<length idx - 1])
       = take (last idx) xs"
proof (induction idx rule: induct_list012)
  case 1
  then show ?case by simp
next
  case (2 a)
  show ?case by simp
next
  case (3 a b r)
  have ab: "a \<le> b" using 3(3) by simp
  have shift: "map (chapter_lines xs (a # b # r)) [0..<length (a # b # r) - 1]
        = py_slice xs a b # map (chapter_lines xs (b # r)) [0..<length (b # r) - 1]"
  proof -
    have "[0..<length (a # b # r) - 1] = 0 # map Suc [0..<length (b # r) - 1]"
      by (simp add: upt_conv_Cons map_Suc_upt del: upt_Suc)
    then show ?thesis
      by (simp add: chapter_lines_def comp_def del: upt_Suc)
  qed
  have "take a xs @ py_slice xs a b = take b xs"
  proof -
    have "take a xs = take a (take b xs)" using ab by (simp add: min_def)
    also have "\<dots> @ drop a (take b xs) = take b xs" by (rule append_take_drop_id)
    finally show ?thesis by (simp add: py_slice_def)
  qed
  then have "take (hd (a # b # r)) xs @ concat (map (chapter_lines xs (a # b # r)) [0..<length (a # b # r) - 1])
        = take (hd (b # r)) xs @ concat (map (chapter_lines xs (b # r)) [0..<length (b # r) - 1])"
    unfolding shift by simp
  also have "\<dots> = take (last (b # r)) xs"
    using 3 by simp
  finally show ?case by simp
qed

lemma collect_Inr: "collect (map (\<lambda>x. Inr (g x)) xs) = Inr (map g xs)"
  by (induction xs) simp_all

lemma detect_chapters_eq:
  assumes scan: "scan_lines (py_splitlines pdf_text) = Inr st"
    and inv: "scan_inv (length (py_splitlines pdf_text)) st"
  shows "detect_chapters pdf_text =
     Inr (map (\<lambda>i. (py_strip (py_join [CHR 0x0A]
                        (chapter_lines (py_splitlines pdf_text)
                           (start_indices st @ [length (py_splitlines pdf_text)]) i)),
                    original_chapter_names st ! i))
              [0..<length (start_indices st)],
          take (hd (start_indices st @ [length (py_splitlines pdf_text)])) (py_splitlines pdf_text))"
proof -
  let ?lines = "py_splitlines pdf_text"
  let ?idx = "start_indices st @ [length ?lines]"
  have len: "length (original_chapter_names st) = length (start_indices st)"
    using inv by (simp add: scan_inv_def)
  have "map (chapter_at ?lines ?idx (original_chapter_names st)) [0..<length ?idx - 1]
        = map (\<lambda>i. Inr (py_strip (py_join [CHR 0x0A] (chapter_lines ?lines ?idx i)),
                          original_chapter_names st ! i)) [0..<length (start_indices st)]"
    using len by (simp add: chapter_at_def)
  then have "collect (map (chapter_at ?lines ?idx (original_chapter_names st)) [0..<length ?idx - 1])
        = Inr (map (\<lambda>i. (py_strip (py_join [CHR 0x0A] (chapter_lines ?lines ?idx i)),
                          original_chapter_names st ! i)) [0..<length (start_indices st)])"
    by (simp only: collect_Inr)
  then show ?thesis
    using scan by (simp add: detect_chapters_def Let_def)
qed

lemma scan_inv_sorted:
  "scan_inv n st \<Longrightarrow> sorted (start_indices st @ [n])"
  by (auto simp: scan_inv_def sorted_append less_imp_le dest: sorted_wrt_mono_rel [where Q = "(\<le>)", rotated])

lemma strip_tags_Nil: "strip_tags [] = []"
  by (simp add: strip_tags_def)

lemma py_strip_Nil: "py_strip [] = []"
  by (simp add: py_strip_def)

lemma re_match_chapter_Nil: "\<not> re_match chapter_pattern []"
  using chapter_line_spec_start [of "[]"] by (auto simp: chapter_pattern_iff)

lemma front_matter_spec_start:
  "front_matter_spec s \<Longrightarrow> s \<noteq> [] \<and> hd s \<in> set ''PEFIApefia''"
proof -
  have cv: "case_variants (CHR ''P'') = ''Pp''" "case_variants (CHR ''F'') = ''Ff''"
    "case_variants (CHR ''I'') = ''Ii''" "case_variants (CHR ''A'') = ''Aa''"
    by (simp_all add: case_variants_def char_tables)
  assume "front_matter_spec s"
  then obtain t where t: "t \<in> set front_matter_words" "same_ignoring_case t s"
    by (auto simp: front_matter_spec_def list_ex_iff)
  then obtain c cs where tc: "t = c # cs" "c \<in> set ''PEFIA''"
    by (auto simp: front_matter_words_def)
  then obtain d ds where "s = d # ds" "ic_eq c d"
    using t(2) by (auto simp: same_ignoring_case_def list_all2_Cons1)
  then show ?thesis
    using tc(2) by (auto simp: ic_eq_def cv case_variants_chapter)
qed

lemma re_match_prologue_Nil: "\<not> re_match prologue_epilogue_pattern []"
  using front_matter_spec_start [of "[]"] by (auto simp: prologue_epilogue_pattern_iff)

lemma scan_step_blank:
  "strip_tags (py_strip line) = [] \<Longrightarrow> scan_step lines (i, line) st = Inr st"
  by (simp add: scan_step_def)

lemma scan_step_body:
  "body_line line \<Longrightarrow> scan_step lines (i, line) st = Inr (st\<lparr>prev_is_chapter := False\<rparr>)"
  by (simp add: scan_step_def body_line_def Let_def)

lemma scan_step_accept:
  assumes "re_match chapter_pattern (strip_tags (py_strip line))"
    and "\<not> roman_token (py_strip (strip_tags (py_strip line)))"
    and "\<not> isnumeric (strip_tags (py_strip line))"
    and "\<not> prev_is_chapter st"
  shows "scan_step lines (i, line) st =
     Inr (st\<lparr>consecutive_chapter_index := 0,
             chapter_number := chapter_number st + 1,
             prev_is_chapter := True,
             start_indices := start_indices st @ [i],
             original_chapter_names := original_chapter_names st @
               [with_subtitle (strip_tags (py_strip line))
                  (py_slice lines (i + 1) (min (i + 3) (length lines)))]\<rparr>)"
proof -
  have "strip_tags (py_strip line) \<noteq> []"
    using assms(1) re_match_chapter_Nil by auto
  then show ?thesis
    using assms by (simp add: scan_step_def Let_def convert_line_if_roman_eq out_of_sequence_def)
qed


lemma chapter_digit_line:
  assumes "is_digit d"
  shows "py_strip (''Chapter '' @ [d]) = ''Chapter '' @ [d]"
    and "strip_tags (''Chapter '' @ [d]) = ''Chapter '' @ [d]"
    and "re_match chapter_pattern (''Chapter '' @ [d])"
    and "\<not> roman_token (''Chapter '' @ [d])"
    and "\<not> isnumeric (''Chapter '' @ [d])"
proof -
  have d: "\<not> is_space d" "d \<noteq> CHR ''<''" "d \<noteq> CHR 0x0A"
    using assms by (auto simp: is_digit_def ascii_digits_def is_space_def)
  show "py_strip (''Chapter '' @ [d]) = ''Chapter '' @ [d]"
    using d by (intro py_strip_id) (simp_all add: is_space_def)
  show "strip_tags (''Chapter '' @ [d]) = ''Chapter '' @ [d]"
    using d by (intro strip_tags_id) auto
  have "''Chapter '' @ [d] = ''Chapter'' @ '' '' @ [d] @ []" by simp
  moreover have "is_numeral [d]" using assms by (simp add: is_numeral_def is_arabic_def)
  moreover have "list_all is_space '' ''" by (simp add: is_space_def)
  ultimately have "chapter_heading_form (''Chapter '' @ [d])"
    unfolding chapter_heading_form_iff using same_ignoring_case_refl [of "''Chapter''"]
    by (metis list.simps(3))
  then show "re_match chapter_pattern (''Chapter '' @ [d])"
    using d by (subst chapter_pattern_iff) (auto simp: chapter_line_spec_def)
  show "\<not> roman_token (''Chapter '' @ [d])"
    by (simp add: roman_token_def is_roman_letter_iff)
  show "\<not> isnumeric (''Chapter '' @ [d])"
    by (simp add: isnumeric_def is_numeric_char_def is_digit_def ascii_digits_def)
qed

lemma chapter_digit_lines:
  "d \<in> set ''12345'' \<Longrightarrow> py_strip (''Chapter '' @ [d]) = ''Chapter '' @ [d]"
  "d \<in> set ''12345'' \<Longrightarrow> strip_tags (''Chapter '' @ [d]) = ''Chapter '' @ [d]"
  "d \<in> set ''12345'' \<Longrightarrow> re_match chapter_pattern (''Chapter '' @ [d])"
  "d \<in> set ''12345'' \<Longrightarrow> \<not> roman_token (''Chapter '' @ [d])"
  "d \<in> set ''12345'' \<Longrightarrow> \<not> isnumeric (''Chapter '' @ [d])"
  using chapter_digit_line [of d] by (auto simp: is_digit_def ascii_digits_def)

lemma plain_body_line:
  assumes "l \<noteq> []" "\<not> is_space (hd l)" "\<not> is_space (last l)"
    and "CHR ''<'' \<notin> set l" "CHR 0x0A \<notin> set l"
    and "\<not> is_digit (hd l)" "\<not> is_roman_letter (hd l)" "hd l \<notin> set ''PEFIApefia''"
  shows "py_strip l = l" and "strip_tags l = l" and "body_line l"
proof -
  show 1: "py_strip l = l" using assms(1-3) by (rule py_strip_id)
  show 2: "strip_tags l = l" using assms(4) by (rule strip_tags_id)
  have "\<not> chapter_line_spec l"
    using chapter_line_spec_start [of l] assms(6,7) by blast
  moreover have "\<not> front_matter_spec l"
    using front_matter_spec_start [of l] assms(8) by blast
  ultimately show "body_line l"
    using assms(1,5) by (simp add: body_line_def 1 2 chapter_pattern_iff prologue_epilogue_pattern_iff)
qed

lemma scan_loop_no_headings:
  assumes "\<forall>l\<in>set xs. \<not> re_match chapter_pattern (strip_tags (py_strip l))
                      \<and> \<not> re_match prologue_epilogue_pattern (strip_tags (py_strip l))"
  shows "\<exists>st'. scan_loop lines (enumerate n xs) st = Inr st'
               \<and> start_indices st' = start_indices st
               \<and> original_chapter_names st' = original_chapter_names st"
  using assms
proof (induction xs arbitrary: n st)
  case Nil
  show ?case by simp
next
  case (Cons x xs)
  have "\<exists>st1. scan_step lines (n, x) st = Inr st1 \<and> start_indices st1 = start_indices st
          \<and> original_chapter_names st1 = original_chapter_names st"
  proof (cases "strip_tags (py_strip x) = []")
    case True
    then show ?thesis by (simp add: scan_step_blank)
  next
    case False
    then have "body_line x" using Cons.prems by (simp add: body_line_def)
    then show ?thesis by (simp add: scan_step_body)
  qed
  then obtain st1 where st1: "scan_step lines (n, x) st = Inr st1"
      "start_indices st1 = start_indices st" "original_chapter_names st1 = original_chapter_names st"
    by blast
  obtain st' where "scan_loop lines (enumerate (Suc n) xs) st1 = Inr st'"
      "start_indices st' = start_indices st1" "original_chapter_names st' = original_chapter_names st1"
    using Cons.IH [of "Suc n" st1] Cons.prems by auto
  then show ?case using st1 by simp
qed

text \<open>
  C1 fails on the code. When no line of the text matches the chapter pattern or the
  front-matter pattern, \<^verbatim>\<open>_detect_chapters\<close> returns no chapter at all, and every line of
  the text as front matter: the end of the text is appended to the boundaries before the
  test \<^verbatim>\<open>if start_indices\<close>, so the branch that would return the single chapter
  \<^verbatim>\<open>Chapter 1\<close> is never taken.
\<close>

theorem detect_chapters_without_headings:
  assumes "\<forall>l\<in>set (py_splitlines pdf_text).
             \<not> re_match chapter_pattern (strip_tags (py_strip l))
             \<and> \<not> re_match prologue_epilogue_pattern (strip_tags (py_strip l))"
  shows "detect_chapters pdf_text = Inr ([], py_splitlines pdf_text)"
proof -
  obtain st where "scan_lines (py_splitlines pdf_text) = Inr st" "start_indices st = []"
    using scan_loop_no_headings [OF assms, of "py_splitlines pdf_text" 0 scan_init]
    by (auto simp: scan_lines_def scan_init_def)
  then show ?thesis
    by (simp add: detect_chapters_def Let_def)
qed

theorem detect_chapters_without_headings_witness:
  "py_splitlines ''The wind howled.'' = [''The wind howled.'']
   \<and> \<not> re_match chapter_pattern (strip_tags (py_strip ''The wind howled.''))
   \<and> \<not> re_match prologue_epilogue_pattern (strip_tags (py_strip ''The wind howled.''))
   \<and> detect_chapters ''The wind howled.'' = Inr ([], [''The wind howled.''])"
proof -
  have lines: "py_splitlines ''The wind howled.'' = [''The wind howled.'']"
    by (simp add: py_splitlines_single is_linebreak_def)
  have "py_strip ''The wind howled.'' = ''The wind howled.''"
    "strip_tags ''The wind howled.'' = ''The wind howled.''"
    "body_line ''The wind howled.''"
    by (rule plain_body_line; simp add: is_space_def is_digit_def ascii_digits_def is_roman_letter_iff)+
  then have no: "\<not> re_match chapter_pattern (strip_tags (py_strip ''The wind howled.''))
      \<and> \<not> re_match prologue_epilogue_pattern (strip_tags (py_strip ''The wind howled.''))"
    by (simp add: body_line_def)
  then have "detect_chapters ''The wind howled.'' = Inr ([], py_splitlines ''The wind howled.'')"
    by (intro detect_chapters_without_headings) (simp add: lines)
  then show ?thesis
    using lines no by simp
qed

lemmas chapter_1_to_5 =
  chapter_digit_lines [of "CHR ''1''", simplified]
  chapter_digit_lines [of "CHR ''2''", simplified]
  chapter_digit_lines [of "CHR ''3''", simplified]
  chapter_digit_lines [of "CHR ''4''", simplified]
  chapter_digit_lines [of "CHR ''5''", simplified]






lemma body_lines_example:
  "py_strip ''The end.'' = ''The end.''" "strip_tags ''The end.'' = ''The end.''" "body_line ''The end.''"
  "py_strip ''Go on.'' = ''Go on.''" "strip_tags ''Go on.'' = ''Go on.''" "body_line ''Go on.''"
  by (rule plain_body_line; simp add: is_space_def is_digit_def ascii_digits_def is_roman_letter_iff)+

lemma is_heading_example:
  "is_heading ''Chapter 1''" "is_heading ''Chapter 2''"
  "\<not> is_heading ''The end.''" "\<not> is_heading ''Go on.''"
  using body_lines_example(3,6)
  by (simp_all add: is_heading_def chapter_1_to_5 body_line_def body_lines_example(1,2,4,5))

lemma merge_example:
  "merge_split_lines [''Chapter 1'', ''The end.'', ''Chapter 2'', ''Go on.'']
     = ''\<newline>Chapter 1\<newline>\<newline>The end.\<newline>\<newline>Chapter 2\<newline>\<newline>Go on.''"
  by (simp add: merge_split_lines_def merge_step_def Let_def chapter_1_to_5 body_lines_example
        is_heading_example endswith_any_def sentence_ends_def py_split.simps is_space_def)

lemma splitlines_example:
  "py_splitlines ''\<newline>Chapter 1\<newline>\<newline>The end.\<newline>\<newline>Chapter 2\<newline>\<newline>Go on.''
     = [[], ''Chapter 1'', [], ''The end.'', [], ''Chapter 2'', [], ''Go on.'']"
  by (simp add: py_splitlines.simps is_linebreak_def)

lemma detect_example:
  "detect_chapters ''\<newline>Chapter 1\<newline>\<newline>The end.\<newline>\<newline>Chapter 2\<newline>\<newline>Go on.''
     = Inr ([(''Chapter 1\<newline>\<newline>The end.'', ''Chapter 1 The end.''),
             (''Chapter 2\<newline>\<newline>Go on.'', ''Chapter 2 Go on.'')],
            [[]])"
  by (simp add: detect_chapters_def Let_def splitlines_example scan_lines_def scan_init_def
        py_strip_Nil strip_tags_Nil scan_step_blank scan_step_accept scan_step_body
        chapter_1_to_5 body_lines_example chapter_at_def chapter_lines_def py_slice_def
        py_split.simps py_strip_def is_space_def eval_nat_numeral)

lemma splitlines_chapters_example:
  "py_splitlines ''Chapter 1\<newline>\<newline>The end.'' = [''Chapter 1'', [], ''The end.'']"
  "py_splitlines ''Chapter 2\<newline>\<newline>Go on.'' = [''Chapter 2'', [], ''Go on.'']"
  by (simp_all add: py_splitlines.simps is_linebreak_def)

text \<open>
  C2 (amended). \<^verbatim>\<open>_detect_chapters\<close> never raises. Its boundaries increase and end with
  the number of lines; the spans of lines between one boundary and the next are contiguous
  and do not overlap, and the front matter followed by these spans, in order, is the list
  of the lines of the text: no line is lost or repeated. Each returned chapter holds the
  lines of its span joined by line feeds and then trimmed, together with its name.
\<close>

theorem detect_chapters_partition:
  "\<exists>st. scan_lines (py_splitlines pdf_text) = Inr st
      \<and> sorted (start_indices st @ [length (py_splitlines pdf_text)])
      \<and> length (original_chapter_names st) = length (start_indices st)
      \<and> detect_chapters pdf_text =
          Inr (map (\<lambda>(span, name). (py_strip (py_join [CHR 0x0A] span), name))
                   (zip (chapter_spans (py_splitlines pdf_text)
                           (start_indices st @ [length (py_splitlines pdf_text)]))
                        (original_chapter_names st)),
               take (hd (start_indices st @ [length (py_splitlines pdf_text)])) (py_splitlines pdf_text))
      \<and> take (hd (start_indices st @ [length (py_splitlines pdf_text)])) (py_splitlines pdf_text)
          @ concat (chapter_spans (py_splitlines pdf_text)
                      (start_indices st @ [length (py_splitlines pdf_text)]))
          = py_splitlines pdf_text"
proof -
  let ?lines = "py_splitlines pdf_text"
  obtain st where st: "scan_lines ?lines = Inr st" "scan_inv (length ?lines) st"
    using scan_lines_inv by blast
  let ?idx = "start_indices st @ [length ?lines]"
  have sorted: "sorted ?idx" using st(2) by (rule scan_inv_sorted)
  have len: "length (original_chapter_names st) = length (start_indices st)"
    using st(2) by (simp add: scan_inv_def)
  have "take (hd ?idx) ?lines @ concat (chapter_spans ?lines ?idx) = take (last ?idx) ?lines"
    unfolding chapter_spans_def using sorted by (intro slices_partition) simp_all
  then have part: "take (hd ?idx) ?lines @ concat (chapter_spans ?lines ?idx) = ?lines"
    by simp
  have "map (\<lambda>(span, name). (py_strip (py_join [CHR 0x0A] span), name))
            (zip (chapter_spans ?lines ?idx) (original_chapter_names st))
        = map (\<lambda>i. (py_strip (py_join [CHR 0x0A] (chapter_lines ?lines ?idx i)),
                     original_chapter_names st ! i)) [0..<length (start_indices st)]"
    using len by (intro nth_equalityI) (simp_all add: chapter_spans_def)
  then have "detect_chapters pdf_text =
          Inr (map (\<lambda>(span, name). (py_strip (py_join [CHR 0x0A] span), name))
                   (zip (chapter_spans ?lines ?idx) (original_chapter_names st)),
               take (hd ?idx) ?lines)"
    using detect_chapters_eq [OF st] by simp
  then show ?thesis
    using st(1) sorted len part by blast
qed

text \<open>
  C2 as stated fails on the returned chapters: trimming drops the blank lines at the end
  of a span. The reflowed text of four lines below has eight lines; the front matter and
  the lines of the two returned chapters are seven.
\<close>

theorem detect_chapters_drops_blank_lines:
  "merge_split_lines [''Chapter 1'', ''The end.'', ''Chapter 2'', ''Go on.'']
     = ''\<newline>Chapter 1\<newline>\<newline>The end.\<newline>\<newline>Chapter 2\<newline>\<newline>Go on.''
   \<and> py_splitlines ''\<newline>Chapter 1\<newline>\<newline>The end.\<newline>\<newline>Chapter 2\<newline>\<newline>Go on.''
     = [[], ''Chapter 1'', [], ''The end.'', [], ''Chapter 2'', [], ''Go on.'']
   \<and> detect_chapters ''\<newline>Chapter 1\<newline>\<newline>The end.\<newline>\<newline>Chapter 2\<newline>\<newline>Go on.''
     = Inr ([(''Chapter 1\<newline>\<newline>The end.'', ''Chapter 1 The end.''),
             (''Chapter 2\<newline>\<newline>Go on.'', ''Chapter 2 Go on.'')],
            [[]])
   \<and> [[]] @ py_splitlines ''Chapter 1\<newline>\<newline>The end.'' @ py_splitlines ''Chapter 2\<newline>\<newline>Go on.''
     = [[], ''Chapter 1'', [], ''The end.'', ''Chapter 2'', [], ''Go on.'']"
  by (simp add: merge_example splitlines_example detect_example splitlines_chapters_example)

end
